theory Spec2Isabelle
  imports Main
begin

section \<open>JavaScript strings\<close>

text \<open>
  A JavaScript string is a sequence of UTF-16 code units; \<open>length\<close>, indexing and
  \<open>slice\<close> count code units. The model is \<^typ>\<open>string\<close>, one \<^typ>\<open>char\<close> per code
  unit, which covers the code units below 256. Every character the scanners below
  test for is ASCII.
\<close>

definition dquote :: char where "dquote = CHR 0x22"
definition squote :: char where "squote = CHR 0x27"
definition backslash :: char where "backslash = CHR 0x5C"

definition charAt :: "string \<Rightarrow> int \<Rightarrow> char option" where
  \<comment> \<open>\<open>s[i]\<close>: the code unit at \<open>i\<close>, or \<open>undefined\<close> (here \<open>None\<close>) out of range.\<close>
  "charAt s i = (if 0 \<le> i \<and> i < int (length s) then Some (s ! nat i) else None)"

definition slice_index :: "nat \<Rightarrow> int \<Rightarrow> nat" where
  \<comment> \<open>How \<open>String.prototype.slice\<close> reads one bound: a negative bound counts from the end.\<close>
  "slice_index len k = (if k < 0 then nat (max (int len + k) 0) else nat (min k (int len)))"

definition slice :: "string \<Rightarrow> int \<Rightarrow> int \<Rightarrow> string" where
  "slice s b e = (let from = slice_index (length s) b; to = slice_index (length s) e
                  in take (to - from) (drop from s))"

definition slice_from :: "string \<Rightarrow> int \<Rightarrow> string" where
  \<comment> \<open>\<open>s.slice(b)\<close>, the end defaulting to the length.\<close>
  "slice_from s b = slice s b (int (length s))"

definition startsWith :: "string \<Rightarrow> string \<Rightarrow> bool" where
  "startsWith s p = (take (length p) s = p)"

definition js_whitespace :: "char \<Rightarrow> bool" where
  \<comment> \<open>White space and line terminators among the code units below 256:
      TAB, LF, VT, FF, CR, SPACE, NBSP.\<close>
  "js_whitespace c = (c \<in> {CHR 0x09, CHR 0x0A, CHR 0x0B, CHR 0x0C, CHR 0x0D, CHR 0x20, CHR 0xA0})"

definition trimStart :: "string \<Rightarrow> string" where
  "trimStart s = dropWhile js_whitespace s"

definition trim :: "string \<Rightarrow> string" where
  "trim s = rev (dropWhile js_whitespace (rev (dropWhile js_whitespace s)))"

section \<open>ExpressionContextAnalyzer: \<open>src/components/JsonPathTable.tsx\<close>\<close>

text \<open>
  \<open>findLastTopLevelDot\<close> scans the prefix backwards, \<open>i\<close> running from
  \<open>prefix.length - 1\<close> down to \<open>0\<close>. One pass of the loop body either ends the
  iteration (\<open>continue\<close>, with the loop variables \<open>bracketDepth\<close> and \<open>quote\<close> as they
  are then) or returns \<open>i\<close>. \<open>prev\<close> is the code unit before \<open>i\<close>, or the empty string
  (here \<open>None\<close>) at \<open>i = 0\<close>. The function returns \<open>-1\<close> when the loop runs out.
\<close>

datatype dot_step = Continue int "char option" | Return int

definition findLastTopLevelDot_body :: "string \<Rightarrow> int \<Rightarrow> int \<Rightarrow> char option \<Rightarrow> dot_step" where
  "findLastTopLevelDot_body prefix i bracketDepth quote =
     (let ch = charAt prefix i;
          prev = (if 0 < i then charAt prefix (i - 1) else None)
      in if quote \<noteq> None then
           (if ch = quote \<and> prev \<noteq> Some backslash
            then Continue bracketDepth None
            else Continue bracketDepth quote)
         else if ch = Some dquote \<or> ch = Some squote then
           (if prev \<noteq> Some backslash
            then Continue bracketDepth ch
            else Continue bracketDepth quote)
         else if ch = Some CHR '']'' then Continue (bracketDepth + 1) quote
         else if ch = Some CHR ''['' then Continue (max 0 (bracketDepth - 1)) quote
         else if 0 < bracketDepth then Continue bracketDepth quote
         else if ch = Some CHR ''.'' then Return i
         else Continue bracketDepth quote)"

function findLastTopLevelDot_loop :: "string \<Rightarrow> int \<Rightarrow> int \<Rightarrow> char option \<Rightarrow> int" where
  "findLastTopLevelDot_loop prefix i bracketDepth quote =
     (if 0 \<le> i then
        (case findLastTopLevelDot_body prefix i bracketDepth quote of
           Return r \<Rightarrow> r
         | Continue bracketDepth' quote' \<Rightarrow>
             findLastTopLevelDot_loop prefix (i - 1) bracketDepth' quote')
      else - 1)"
  by pat_completeness auto
termination
  by (relation "measure (\<lambda>(prefix, i, bracketDepth, quote). nat (i + 1))") auto

declare findLastTopLevelDot_loop.simps [simp del]

definition findLastTopLevelDot :: "string \<Rightarrow> int" where
  "findLastTopLevelDot prefix = findLastTopLevelDot_loop prefix (int (length prefix) - 1) 0 None"

text \<open>
  The forward scan inside \<open>getCompletionContext\<close>: the most recent \<open>[\<close> not yet closed
  by a \<open>]\<close>, outside quotes, or \<open>-1\<close>. The loop body updates the pair
  (\<open>lastBracket\<close>, \<open>inQuote\<close>).
\<close>

definition lastBracket_body :: "string \<Rightarrow> int \<Rightarrow> int \<Rightarrow> char option \<Rightarrow> int \<times> char option" where
  "lastBracket_body prefix i lastBracket inQuote =
     (let ch = charAt prefix i;
          prev = (if 0 < i then charAt prefix (i - 1) else None)
      in if inQuote \<noteq> None then
           (if ch = inQuote \<and> prev \<noteq> Some backslash
            then (lastBracket, None)
            else (lastBracket, inQuote))
         else if (ch = Some dquote \<or> ch = Some squote) \<and> prev \<noteq> Some backslash then
           (lastBracket, ch)
         else if ch = Some CHR ''['' then (i, inQuote)
         else if ch = Some CHR '']'' then (- 1, inQuote)
         else (lastBracket, inQuote))"

function lastBracket_loop :: "string \<Rightarrow> int \<Rightarrow> int \<Rightarrow> char option \<Rightarrow> int" where
  "lastBracket_loop prefix i lastBracket inQuote =
     (if i < int (length prefix) then
        (case lastBracket_body prefix i lastBracket inQuote of
           (lastBracket', inQuote') \<Rightarrow> lastBracket_loop prefix (i + 1) lastBracket' inQuote')
      else lastBracket)"
  by pat_completeness auto
termination
  by (relation "measure (\<lambda>(prefix, i, lastBracket, inQuote). nat (int (length prefix) - i))") auto

declare lastBracket_loop.simps [simp del]

record replace_range =
  range_start :: int
  range_end :: int

datatype CompletionContext =
    CtxNone replace_range
  | CtxDot string string replace_range
  | CtxDescendant string string replace_range
  | CtxBracketString string string replace_range
  | CtxBracketIndex string string replace_range
  | CtxRoot replace_range

fun replace_of :: "CompletionContext \<Rightarrow> replace_range" where
  "replace_of (CtxNone r) = r"
| "replace_of (CtxDot base partial r) = r"
| "replace_of (CtxDescendant base partial r) = r"
| "replace_of (CtxBracketString base partial r) = r"
| "replace_of (CtxBracketIndex base partial r) = r"
| "replace_of (CtxRoot r) = r"

definition getCompletionContext :: "string \<Rightarrow> int \<Rightarrow> CompletionContext" where
  "getCompletionContext expr cursor =
     (let safeCursor = max 0 (min cursor (int (length expr)));
          prefix = slice expr 0 safeCursor
      in if \<not> startsWith prefix ''$'' then
           CtxRoot \<lparr>range_start = 0, range_end = safeCursor\<rparr>
         else
           (let lastDot = findLastTopLevelDot prefix
            in if 1 \<le> lastDot then
                 (if charAt prefix (lastDot - 1) = Some CHR ''.'' then
                    (let base = slice prefix 0 (lastDot + 1);
                         partial = slice_from prefix (lastDot + 1)
                     in CtxDescendant base partial
                          \<lparr>range_start = int (length base), range_end = safeCursor\<rparr>)
                  else
                    (let base = slice prefix 0 lastDot;
                         partial = slice_from prefix (lastDot + 1)
                     in CtxDot base partial \<lparr>range_start = lastDot, range_end = safeCursor\<rparr>))
               else
                 (let lastBracket = lastBracket_loop prefix 0 (- 1) None
                  in if 0 \<le> lastBracket then
                       (let base = slice prefix 0 lastBracket;
                            after = slice_from prefix (lastBracket + 1);
                            afterTrim = trimStart after
                        in if startsWith afterTrim ''?('' \<or> startsWith afterTrim ''(''
                           then CtxNone \<lparr>range_start = safeCursor, range_end = safeCursor\<rparr>
                           else if startsWith after [squote] \<or> startsWith after [dquote]
                           then CtxBracketString base (slice_from after 1)
                                  \<lparr>range_start = lastBracket, range_end = safeCursor\<rparr>
                           else CtxBracketIndex base after
                                  \<lparr>range_start = lastBracket, range_end = safeCursor\<rparr>)
                     else CtxRoot \<lparr>range_start = 0, range_end = safeCursor\<rparr>)))"

section \<open>JavaScript values, objects and arrays\<close>

text \<open>
  The document is a JavaScript value: a primitive, or a reference to an array or a
  plain object on the heap. References are addresses, so that \<open>===\<close> on two containers
  is equality of addresses, and a copy (\<open>slice()\<close>, an object spread) is a fresh
  address. The payload of a number is left abstract (\<open>'n\<close>): nothing below computes
  with it.
\<close>

datatype 'n jsval =
    JUndefined
  | JNull
  | JBool bool
  | JNumber 'n
  | JString string
  | JRef nat

text \<open>
  An array is the list of its elements; a hole reads as \<open>undefined\<close> and is modelled
  as \<open>JUndefined\<close>. A plain object is the list of its own enumerable string-keyed
  properties in the order \<open>Object.keys\<close>, \<open>Object.entries\<close>, the spread and
  \<open>JSON.stringify\<close> enumerate them: first the keys that are array indices in
  ascending numeric order, then the other keys in the order they were created.
\<close>

datatype 'n jsobj =
    JArray "'n jsval list"
  | JObject "(string \<times> 'n jsval) list"

type_synonym 'n heap = "'n jsobj list"

text \<open>\<open>JsonPathSegment = string | number\<close>; a number segment is a non-negative integer.\<close>

datatype JsonPathSegment = Key string | Index nat

definition heap_get :: "'n heap \<Rightarrow> nat \<Rightarrow> 'n jsobj option" where
  "heap_get h a = (if a < length h then Some (h ! a) else None)"

definition alloc :: "'n heap \<Rightarrow> 'n jsobj \<Rightarrow> nat \<times> 'n heap" where
  \<comment> \<open>A fresh container: the next unused address.\<close>
  "alloc h ob = (length h, h @ [ob])"

definition array_of :: "'n heap \<Rightarrow> 'n jsval \<Rightarrow> 'n jsval list option" where
  \<comment> \<open>\<open>Array.isArray(v)\<close>, with the elements.\<close>
  "array_of h v =
     (case v of
        JRef a \<Rightarrow> (case heap_get h a of Some (JArray xs) \<Rightarrow> Some xs | _ \<Rightarrow> None)
      | _ \<Rightarrow> None)"

definition object_of :: "'n heap \<Rightarrow> 'n jsval \<Rightarrow> (string \<times> 'n jsval) list option" where
  \<comment> \<open>\<open>isPlainObject(v)\<close>: \<open>typeof v === 'object' && v !== null && !Array.isArray(v)\<close>,
      with the own properties.\<close>
  "object_of h v =
     (case v of
        JRef a \<Rightarrow> (case heap_get h a of Some (JObject ps) \<Rightarrow> Some ps | _ \<Rightarrow> None)
      | _ \<Rightarrow> None)"

subsection \<open>Arrays\<close>

definition arr_get :: "'n jsval list \<Rightarrow> nat \<Rightarrow> 'n jsval" where
  \<comment> \<open>\<open>xs[i]\<close>: \<open>undefined\<close> past the end.\<close>
  "arr_get xs i = (if i < length xs then xs ! i else JUndefined)"

definition arr_set :: "'n jsval list \<Rightarrow> nat \<Rightarrow> 'n jsval \<Rightarrow> 'n jsval list" where
  \<comment> \<open>\<open>xs[i] = v\<close>: past the end the array grows, the slots between are holes.\<close>
  "arr_set xs i v =
     (if i < length xs then xs[i := v]
      else xs @ replicate (i - length xs) JUndefined @ [v])"

definition arr_splice1 :: "'n jsval list \<Rightarrow> nat \<Rightarrow> 'n jsval list" where
  \<comment> \<open>\<open>xs.splice(i, 1)\<close>: the later elements move down.\<close>
  "arr_splice1 xs i = take i xs @ drop (Suc i) xs"

subsection \<open>Canonical numeric strings\<close>

definition is_digit :: "char \<Rightarrow> bool" where
  "is_digit c = (c \<in> set ''0123456789'')"

definition isIndex :: "string \<Rightarrow> bool" where
  \<comment> \<open>The test \<open>/^(0|[1-9]\d*)$/u\<close>.\<close>
  "isIndex part =
     (part = ''0'' \<or>
      (case part of [] \<Rightarrow> False
       | c # cs \<Rightarrow> c \<in> set ''123456789'' \<and> list_all is_digit cs))"

definition digit_value :: "char \<Rightarrow> nat" where
  "digit_value c = of_char c - 48"

definition Number_of_digits :: "string \<Rightarrow> nat" where
  \<comment> \<open>\<open>Number(part)\<close> for a string of decimal digits: its decimal value. JavaScript
      numbers hold it exactly up to \<open>2^53\<close>.\<close>
  "Number_of_digits part = foldl (\<lambda>acc c. 10 * acc + digit_value c) 0 part"

definition is_array_index :: "string \<Rightarrow> bool" where
  \<comment> \<open>An array index as a property key: a canonical numeric string below \<open>2^32 - 1\<close>.\<close>
  "is_array_index k = (isIndex k \<and> int (Number_of_digits k) < 4294967295)"

subsection \<open>Own properties of a plain object\<close>

definition hasOwn :: "(string \<times> 'v) list \<Rightarrow> string \<Rightarrow> bool" where
  \<comment> \<open>\<open>Object.prototype.hasOwnProperty.call(obj, k)\<close>\<close>
  "hasOwn ps k = (k \<in> set (map fst ps))"



definition obj_get :: "(string \<times> 'n jsval) list \<Rightarrow> string \<Rightarrow> 'n jsval" where
  \<comment> \<open>\<open>obj[k]\<close> on own properties: \<open>undefined\<close> when \<open>k\<close> is not one. The members
      inherited from \<open>Object.prototype\<close> are functions, never documents; they are not
      modelled as values.\<close>
  "obj_get ps k = (case map_of ps k of Some v \<Rightarrow> v | None \<Rightarrow> JUndefined)"

fun insert_index :: "(string \<times> 'v) list \<Rightarrow> string \<Rightarrow> 'v \<Rightarrow> (string \<times> 'v) list" where
  \<comment> \<open>A new array-index key takes its place in ascending numeric order, before the
      keys that are not array indices.\<close>
  "insert_index [] k v = [(k, v)]"
| "insert_index ((k', v') # ps) k v =
     (if is_array_index k' \<and> Number_of_digits k' < Number_of_digits k
      then (k', v') # insert_index ps k v
      else (k, v) # (k', v') # ps)"

definition obj_set :: "(string \<times> 'v) list \<Rightarrow> string \<Rightarrow> 'v \<Rightarrow> (string \<times> 'v) list" where
  \<comment> \<open>Defining the own property \<open>k\<close> (a computed key of an object literal): an existing
      key keeps its place, a new one is added in property order.\<close>
  "obj_set ps k v =
     (if hasOwn ps k then map (\<lambda>(k', v'). if k' = k then (k', v) else (k', v')) ps
      else if is_array_index k then insert_index ps k v
      else ps @ [(k, v)])"

definition obj_assign :: "(string \<times> 'v) list \<Rightarrow> string \<Rightarrow> 'v \<Rightarrow> (string \<times> 'v) list" where
  \<comment> \<open>The assignment \<open>obj[k] = v\<close>. It differs from defining the property for the key
      \<open>__proto__\<close>: unless that is an own property already, the assignment runs the
      inherited setter and creates no own property.\<close>
  "obj_assign ps k v = (if k = ''__proto__'' \<and> \<not> hasOwn ps k then ps else obj_set ps k v)"

definition obj_delete :: "(string \<times> 'v) list \<Rightarrow> string \<Rightarrow> (string \<times> 'v) list" where
  \<comment> \<open>\<open>delete obj[k]\<close>\<close>
  "obj_delete ps k = filter (\<lambda>(k', v'). k' \<noteq> k) ps"

section \<open>DocumentModel: \<open>src/App.tsx\<close>\<close>

text \<open>
  Modelled from the spec: \<open>read(value, path)\<close> of section 4.2 is not in the sources
  (the components read the document while rendering). It walks the segments; a Key
  segment against a non-mapping, an Index segment against a non-list, an out-of-range
  index or a missing key yields \<open>undefined\<close>.
\<close>

fun read :: "'n heap \<Rightarrow> 'n jsval \<Rightarrow> JsonPathSegment list \<Rightarrow> 'n jsval" where
  "read h v [] = v"
| "read h v (Index i # rest) =
     (case array_of h v of Some xs \<Rightarrow> read h (arr_get xs i) rest | None \<Rightarrow> JUndefined)"
| "read h v (Key k # rest) =
     (case object_of h v of Some obj \<Rightarrow> read h (obj_get obj k) rest | None \<Rightarrow> JUndefined)"

text \<open>
  \<open>updateAtPath\<close>. \<open>current.slice()\<close> and the object literal \<open>{...obj, [head]: \<dots>}\<close>
  allocate the copy first; the recursive call then runs on the element read from it,
  and its result is stored into the copy.
\<close>

fun updateAtPath ::
  "'n heap \<Rightarrow> 'n jsval \<Rightarrow> JsonPathSegment list \<Rightarrow> 'n jsval \<Rightarrow> 'n jsval \<times> 'n heap" where
  "updateAtPath h current [] nextValue = (nextValue, h)"
| "updateAtPath h current (Index i # rest) nextValue =
     (case array_of h current of
        Some xs \<Rightarrow>
          (let (nextArr, h1) = alloc h (JArray xs);
               (v, h2) = updateAtPath h1 (arr_get xs i) rest nextValue
           in (JRef nextArr, h2[nextArr := JArray (arr_set xs i v)]))
      | None \<Rightarrow> (current, h))"
| "updateAtPath h current (Key k # rest) nextValue =
     (case object_of h current of
        Some obj \<Rightarrow>
          (let (nextObj, h1) = alloc h (JObject obj);
               (v, h2) = updateAtPath h1 (obj_get obj k) rest nextValue
           in (JRef nextObj, h2[nextObj := JObject (obj_set obj k v)]))
      | None \<Rightarrow> (current, h))"

text \<open>
  \<open>deleteAtPath\<close>. The first three equations are the branch \<open>rest.length === 0\<close>; the
  last two are the recursive branch, reached with a non-empty \<open>rest\<close>.
\<close>

fun deleteAtPath :: "'n heap \<Rightarrow> 'n jsval \<Rightarrow> JsonPathSegment list \<Rightarrow> 'n jsval \<times> 'n heap" where
  "deleteAtPath h current [] = (current, h)"
| "deleteAtPath h current [Index i] =
     (case array_of h current of
        Some xs \<Rightarrow>
          (if length xs \<le> i then (current, h)
           else (let (nextArr, h1) = alloc h (JArray xs)
                 in (JRef nextArr, h1[nextArr := JArray (arr_splice1 xs i)])))
      | None \<Rightarrow> (current, h))"
| "deleteAtPath h current [Key k] =
     (case object_of h current of
        Some obj \<Rightarrow>
          (if \<not> hasOwn obj k then (current, h)
           else (let (nextObj, h1) = alloc h (JObject obj)
                 in (JRef nextObj, h1[nextObj := JObject (obj_delete obj k)])))
      | None \<Rightarrow> (current, h))"
| "deleteAtPath h current (Index i # rest) =
     (case array_of h current of
        Some xs \<Rightarrow>
          (let (nextArr, h1) = alloc h (JArray xs);
               (v, h2) = deleteAtPath h1 (arr_get xs i) rest
           in (JRef nextArr, h2[nextArr := JArray (arr_set xs i v)]))
      | None \<Rightarrow> (current, h))"
| "deleteAtPath h current (Key k # rest) =
     (case object_of h current of
        Some obj \<Rightarrow>
          (let (nextObj, h1) = alloc h (JObject obj);
               (v, h2) = deleteAtPath h1 (obj_get obj k) rest
           in (JRef nextObj, h2[nextObj := JObject (obj_set obj k v)]))
      | None \<Rightarrow> (current, h))"





section \<open>PathCodec: \<open>src/App.tsx\<close>\<close>

fun split_on :: "char \<Rightarrow> string \<Rightarrow> string list" where
  \<comment> \<open>\<open>s.split(sep)\<close> for a one-character separator: never empty, \<open>''''\<close> gives \<open>['''']\<close>.\<close>
  "split_on sep [] = [[]]"
| "split_on sep (c # cs) =
     (if c = sep then [] # split_on sep cs
      else (case split_on sep cs of t # ts \<Rightarrow> (c # t) # ts | [] \<Rightarrow> [[c]]))"

fun replace_pair :: "char \<Rightarrow> char \<Rightarrow> char \<Rightarrow> string \<Rightarrow> string" where
  \<comment> \<open>\<open>s.replace(/ab/g, c)\<close>: every occurrence of the two characters, left to right.\<close>
  "replace_pair a b c (x # y # zs) =
     (if x = a \<and> y = b then c # replace_pair a b c zs else x # replace_pair a b c (y # zs))"
| "replace_pair a b c zs = zs"

definition decodeJsonPointerToken :: "string \<Rightarrow> string" where
  "decodeJsonPointerToken token =
     replace_pair CHR ''~'' CHR ''0'' CHR ''~'' (replace_pair CHR ''~'' CHR ''1'' CHR ''/'' token)"

text \<open>
  The loop of \<open>jsonPointerToPath\<close> over the decoded parts, with its two variables: the
  path built so far and \<open>current\<close>, the value reached in the document.
\<close>

fun jsonPointerToPath_loop ::
  "'n heap \<Rightarrow> string list \<Rightarrow> JsonPathSegment list \<Rightarrow> 'n jsval \<Rightarrow> JsonPathSegment list" where
  "jsonPointerToPath_loop h [] path current = path"
| "jsonPointerToPath_loop h (part # parts) path current =
     (case (array_of h current, isIndex part) of
        (Some xs, True) \<Rightarrow>
          (let idx = Number_of_digits part
           in jsonPointerToPath_loop h parts (path @ [Index idx]) (arr_get xs idx))
      | _ \<Rightarrow>
          jsonPointerToPath_loop h parts (path @ [Key part])
            (case object_of h current of Some obj \<Rightarrow> obj_get obj part | None \<Rightarrow> JUndefined))"

definition pointer_parts :: "string \<Rightarrow> string list" where
  \<comment> \<open>\<open>pointer.split('/').slice(1).map(decodeJsonPointerToken)\<close>\<close>
  "pointer_parts pointer = map decodeJsonPointerToken (drop 1 (split_on CHR ''/'' pointer))"

definition jsonPointerToPath :: "'n heap \<Rightarrow> string \<Rightarrow> 'n jsval \<Rightarrow> JsonPathSegment list option" where
  \<comment> \<open>\<open>None\<close> is the result \<open>null\<close>.\<close>
  "jsonPointerToPath h pointer root =
     (if pointer = [] then Some []
      else if \<not> startsWith pointer ''/'' then None
      else Some (jsonPointerToPath_loop h (pointer_parts pointer) [] root))"

text \<open>
  Modelled from the spec: \<open>encode(path)\<close> of section 4.1 is not in the sources (the
  pointers come from the external path evaluator). For each segment, stringify (an
  integer segment as decimal, no leading zeros except \<open>0\<close> itself) and escape \<open>~\<close> as
  \<open>~0\<close> and \<open>/\<close> as \<open>~1\<close>; join with \<open>/\<close>; prefix with \<open>/\<close>; the empty path gives
  the empty string.
\<close>

fun decimal :: "nat \<Rightarrow> string" where
  "decimal n =
     (if n < 10 then [char_of (48 + n)] else decimal (n div 10) @ [char_of (48 + n mod 10)])"

declare decimal.simps [simp del]

definition escape_token :: "string \<Rightarrow> string" where
  "escape_token s =
     concat (map (\<lambda>c. if c = CHR ''~'' then ''~0'' else if c = CHR ''/'' then ''~1'' else [c]) s)"

definition segment_token :: "JsonPathSegment \<Rightarrow> string" where
  "segment_token seg = (case seg of Key k \<Rightarrow> k | Index i \<Rightarrow> decimal i)"

fun join :: "string \<Rightarrow> string list \<Rightarrow> string" where
  "join sep [] = []"
| "join sep [t] = t"
| "join sep (t # ts) = t @ sep @ join sep ts"

definition encode :: "JsonPathSegment list \<Rightarrow> string" where
  "encode path =
     (if path = [] then []
      else CHR ''/'' # join ''/'' (map (\<lambda>seg. escape_token (segment_token seg)) path))"

text \<open>
  A path resolves in a document when every proper prefix of it reads a node of the
  container kind the next segment expects: a list for an Index, a mapping for a Key.
\<close>

definition fits :: "'n heap \<Rightarrow> 'n jsval \<Rightarrow> JsonPathSegment \<Rightarrow> bool" where
  "fits h v seg =
     (case seg of Index i \<Rightarrow> array_of h v \<noteq> None | Key k \<Rightarrow> object_of h v \<noteq> None)"

definition resolves :: "'n heap \<Rightarrow> 'n jsval \<Rightarrow> JsonPathSegment list \<Rightarrow> bool" where
  "resolves h D P = list_all (\<lambda>n. fits h (read h D (take n P)) (P ! n)) [0..<length P]"

section \<open>EditReconciler: the handlers of \<open>src/App.tsx\<close>\<close>





text \<open>
  A representable path: every Index is an integer a JavaScript number holds exactly
  and prints in decimal, that is, at most \<open>2^53\<close>. (\<open>Number_of_digits\<close> is the exact
  decimal value; \<open>Number\<close> agrees with it in that range.)
\<close>

definition representable :: "JsonPathSegment list \<Rightarrow> bool" where
  "representable P =
     list_all (\<lambda>seg. case seg of Index i \<Rightarrow> int i \<le> 9007199254740992 | Key k \<Rightarrow> True) P"

section \<open>Well-formed heaps and paths beside a path\<close>

text \<open>
  A heap is closed when no container holds a reference past its end (no dangling
  reference). \<open>closed_upto b h\<close> says so of the first \<open>b\<close> cells: they refer only to
  each other.
\<close>

definition val_below :: "nat \<Rightarrow> 'n jsval \<Rightarrow> bool" where
  "val_below b v = (case v of JRef a \<Rightarrow> a < b | _ \<Rightarrow> True)"

definition obj_values :: "'n jsobj \<Rightarrow> 'n jsval list" where
  "obj_values ob = (case ob of JArray xs \<Rightarrow> xs | JObject ps \<Rightarrow> map snd ps)"

definition closed_upto :: "nat \<Rightarrow> 'n heap \<Rightarrow> bool" where
  "closed_upto b h =
     (b \<le> length h \<and> list_all (\<lambda>ob. list_all (val_below b) (obj_values ob)) (take b h))"

definition heap_closed :: "'n heap \<Rightarrow> bool" where
  "heap_closed h = closed_upto (length h) h"

fun is_prefix :: "'a list \<Rightarrow> 'a list \<Rightarrow> bool" where
  "is_prefix [] ys = True"
| "is_prefix (x # xs) [] = False"
| "is_prefix (x # xs) (y # ys) = (x = y \<and> is_prefix xs ys)"

definition off_path :: "JsonPathSegment list \<Rightarrow> JsonPathSegment list \<Rightarrow> bool" where
  \<comment> \<open>\<open>Q\<close> addresses a node beside the path from the root to \<open>P\<close>: neither on it nor
      under its end.\<close>
  "off_path P Q = (\<not> is_prefix Q P \<and> \<not> is_prefix P Q)"

text \<open>
  Property order. \<open>key_before x y\<close> holds when entry \<open>x\<close> may stand before entry \<open>y\<close>
  in a plain object: an array-index key stands after smaller array-index keys only.
  \<open>js_ordered\<close> says so of every pair of a property list; the objects \<open>JSON.parse\<close>
  and the spread build are of this kind.
\<close>

definition key_before :: "string \<times> 'v \<Rightarrow> string \<times> 'v \<Rightarrow> bool" where
  "key_before x y =
     (if is_array_index (fst y)
      then is_array_index (fst x) \<and> Number_of_digits (fst x) < Number_of_digits (fst y)
      else True)"

definition js_ordered :: "(string \<times> 'v) list \<Rightarrow> bool" where
  "js_ordered ps = sorted_wrt key_before ps"


definition index_below :: "string \<Rightarrow> string \<times> 'v \<Rightarrow> bool" where
  \<comment> \<open>The entries a new array-index key \<open>k\<close> is put after.\<close>
  "index_below k x =
     (is_array_index (fst x) \<and> Number_of_digits (fst x) < Number_of_digits k)"

section \<open>Nested JSON decoding: \<open>src/utils/decodeNestedJson.ts\<close>\<close>

text \<open>
  \<open>JSON.parse\<close> builds a tree, and \<open>decodeValue\<close> neither compares nor mutates
  containers: it builds its result anew. Values are trees here. \<open>JSON.parse\<close> itself is
  a parameter, \<open>None\<close> where it throws.
\<close>

datatype 'n json =
    VNull
  | VBool bool
  | VNumber 'n
  | VString string
  | VArray "'n json list"
  | VObject "(string \<times> 'n json) list"

datatype NestedJsonError = NestedJsonError

definition looksLikeNestedJsonString :: "string \<Rightarrow> bool" where
  "looksLikeNestedJsonString s =
     (case trim s of
        [] \<Rightarrow> False
      | ch # rest \<Rightarrow> ch = CHR ''{'' \<or> ch = CHR ''['' \<or> ch = dquote)"

definition tryParseJson :: "(string \<Rightarrow> 'n json option) \<Rightarrow> string \<Rightarrow> 'n json option" where
  \<comment> \<open>\<open>None\<close> is the result \<open>undefined\<close>.\<close>
  "tryParseJson JSON_parse s = (if \<not> looksLikeNestedJsonString s then None else JSON_parse s)"

text \<open>
  \<open>decodeValue\<close> calls itself on what \<open>JSON.parse\<close> returns, so its recursion is not
  on the structure of its argument. The second argument bounds the depth of the calls;
  \<open>None\<close> means the bound was reached. The loop over \<open>Object.entries(value)\<close> assigns
  \<open>result[key]\<close>, starting from \<open>{}\<close>.
\<close>

fun decodeValue :: "(string \<Rightarrow> 'n json option) \<Rightarrow> nat \<Rightarrow> 'n json \<Rightarrow> 'n json option" where
  "decodeValue JSON_parse 0 v = None"
| "decodeValue JSON_parse (Suc n) (VString s) =
     (case tryParseJson JSON_parse s of
        None \<Rightarrow> Some (VString s)
      | Some parsed \<Rightarrow> decodeValue JSON_parse n parsed)"
| "decodeValue JSON_parse (Suc n) (VArray items) =
     map_option VArray (those (map (decodeValue JSON_parse n) items))"
| "decodeValue JSON_parse (Suc n) (VObject entries) =
     map_option (\<lambda>decoded. VObject (foldl (\<lambda>result (key, v). obj_assign result key v) [] decoded))
       (those (map (\<lambda>(key, v). map_option (Pair key) (decodeValue JSON_parse n v)) entries))"
| "decodeValue JSON_parse (Suc n) v = Some v"

definition decodeNestedJson ::
  "(string \<Rightarrow> 'n json option) \<Rightarrow> nat \<Rightarrow> string \<Rightarrow> (NestedJsonError + 'n json) option" where
  \<comment> \<open>\<open>Some (Inl e)\<close>: the error is thrown; \<open>Some (Inr v)\<close>: \<open>v\<close> is returned.\<close>
  "decodeNestedJson JSON_parse fuel input =
     (case JSON_parse input of
        None \<Rightarrow> Some (Inl NestedJsonError)
      | Some root \<Rightarrow> map_option Inr (decodeValue JSON_parse fuel root))"

section \<open>Cell edits: \<open>commitCellEditor\<close> of \<open>src/components/JsonPathTable.tsx\<close>\<close>









section \<open>Properties of the ExpressionContextAnalyzer\<close>

lemma findLastTopLevelDot_body_Return:
  "findLastTopLevelDot_body prefix i d q = Return r \<Longrightarrow> r = i"
  by (simp add: findLastTopLevelDot_body_def Let_def split: if_splits)

lemma findLastTopLevelDot_loop_bound:
  "findLastTopLevelDot_loop prefix i d q = - 1 \<or>
   (0 \<le> findLastTopLevelDot_loop prefix i d q \<and> findLastTopLevelDot_loop prefix i d q \<le> i)"
proof (induction prefix i d q rule: findLastTopLevelDot_loop.induct)
  case (1 prefix i d q)
  show ?case
  proof (cases "0 \<le> i")
    case False
    then show ?thesis by (simp add: findLastTopLevelDot_loop.simps)
  next
    case True
    show ?thesis
    proof (cases "findLastTopLevelDot_body prefix i d q")
      case (Return r)
      then have "r = i" by (rule findLastTopLevelDot_body_Return)
      with True Return show ?thesis
        by (simp add: findLastTopLevelDot_loop.simps [of prefix i])
    next
      case (Continue d' q')
      have eq: "findLastTopLevelDot_loop prefix i d q = findLastTopLevelDot_loop prefix (i - 1) d' q'"
        using True Continue by (simp add: findLastTopLevelDot_loop.simps [of prefix i])
      from "1.IH" [OF True Continue] show ?thesis
        unfolding eq by auto
    qed
  qed
qed

lemma lastBracket_body_bound:
  "lastBracket_body prefix i lb q = (lb', q') \<Longrightarrow> - 1 \<le> lb \<Longrightarrow> lb < i \<Longrightarrow> 0 \<le> i
     \<Longrightarrow> - 1 \<le> lb' \<and> lb' < i + 1"
  by (auto simp add: lastBracket_body_def Let_def split: if_splits)

lemma lastBracket_loop_bound:
  "- 1 \<le> lb \<Longrightarrow> lb < i \<Longrightarrow> 0 \<le> i \<Longrightarrow> i \<le> int (length prefix) \<Longrightarrow>
   - 1 \<le> lastBracket_loop prefix i lb q \<and> lastBracket_loop prefix i lb q < int (length prefix)"
proof (induction prefix i lb q rule: lastBracket_loop.induct)
  case (1 prefix i lb q)
  show ?case
  proof (cases "i < int (length prefix)")
    case False
    have "lastBracket_loop prefix i lb q = lb"
      using False by (subst lastBracket_loop.simps) simp
    with "1.prems" False show ?thesis by simp
  next
    case True
    obtain lb' q' where body: "lastBracket_body prefix i lb q = (lb', q')"
      by (cases "lastBracket_body prefix i lb q")
    have eq: "lastBracket_loop prefix i lb q = lastBracket_loop prefix (i + 1) lb' q'"
      using True body by (simp add: lastBracket_loop.simps [of prefix i])
    have b: "- 1 \<le> lb' \<and> lb' < i + 1"
      using lastBracket_body_bound [OF body] "1.prems" by simp
    have "- 1 \<le> lastBracket_loop prefix (i + 1) lb' q' \<and>
          lastBracket_loop prefix (i + 1) lb' q' < int (length prefix)"
      using "1.IH" [OF True body [symmetric]] b True "1.prems" by simp
    then show ?thesis unfolding eq .
  qed
qed

lemma slice_0_length: "0 \<le> e \<Longrightarrow> e \<le> int (length s) \<Longrightarrow> length (slice s 0 e) = nat e"
  by (simp add: slice_def slice_index_def Let_def)

text \<open>
  Claim C3. For the expression text \<open>$.arr[?(@.x\<close> with the cursor at its end (offset
  11) the analyzer is claimed to answer None. It does not: the backward scan meets the
  dot at offset 9 before any bracket is looked at, so the answer is a dot segment with
  base \<open>$.arr[?(@\<close> and partial \<open>x\<close>, replacing offsets 9 to 11. The filter test of the
  bracket branch is never reached.
\<close>

theorem getCompletionContext_filter_with_dot:
  "getCompletionContext ''$.arr[?(@.x'' 11
     = CtxDot ''$.arr[?(@'' ''x'' \<lparr>range_start = 9, range_end = 11\<rparr>"
  by code_simp

text \<open>
  Claim C10. \<open>getCompletionContext\<close> is total, and for every expression and every
  integer cursor, negative or past the end included, the replace range of its answer
  satisfies \<open>0 \<le> start \<le> end \<le> length expr\<close>, the end being the cursor clamped into
  \<open>[0, length expr]\<close>.
\<close>

theorem getCompletionContext_range:
  "0 \<le> range_start (replace_of (getCompletionContext expr cursor)) \<and>
   range_start (replace_of (getCompletionContext expr cursor))
     \<le> range_end (replace_of (getCompletionContext expr cursor)) \<and>
   range_end (replace_of (getCompletionContext expr cursor)) \<le> int (length expr) \<and>
   range_end (replace_of (getCompletionContext expr cursor)) = max 0 (min cursor (int (length expr)))"
proof -
  define safeCursor where "safeCursor = max 0 (min cursor (int (length expr)))"
  define prefix where "prefix = slice expr 0 safeCursor"
  have sc: "0 \<le> safeCursor" "safeCursor \<le> int (length expr)"
    by (simp_all add: safeCursor_def)
  have len: "int (length prefix) = safeCursor"
    using slice_0_length [OF sc] sc by (simp add: prefix_def)
  define lastDot where "lastDot = findLastTopLevelDot prefix"
  have dot: "lastDot = - 1 \<or> (0 \<le> lastDot \<and> lastDot < safeCursor)"
    using findLastTopLevelDot_loop_bound [of prefix "int (length prefix) - 1" 0 None] len
    by (auto simp: lastDot_def findLastTopLevelDot_def)
  define lastBracket where "lastBracket = lastBracket_loop prefix 0 (- 1) None"
  have br: "- 1 \<le> lastBracket \<and> lastBracket < safeCursor"
    using lastBracket_loop_bound [of "- 1" 0 prefix None] len
    by (simp add: lastBracket_def)
  have base_len: "1 \<le> lastDot \<Longrightarrow> int (length (slice prefix 0 (lastDot + 1))) = lastDot + 1"
    using dot len slice_0_length [of "lastDot + 1" prefix] by auto
  show ?thesis
    using sc dot br base_len
    unfolding getCompletionContext_def safeCursor_def [symmetric] Let_def
      prefix_def [symmetric] lastDot_def [symmetric] lastBracket_def [symmetric]
    by (auto split: if_splits)
qed

theorem getCompletionContext_range_witness:
  "0 \<le> range_start (replace_of (getCompletionContext ''$.a[0].b'' (- 3))) \<and>
   range_start (replace_of (getCompletionContext ''$.a[0].b'' (- 3)))
     \<le> range_end (replace_of (getCompletionContext ''$.a[0].b'' (- 3))) \<and>
   range_end (replace_of (getCompletionContext ''$.a[0].b'' (- 3))) \<le> int (length ''$.a[0].b'') \<and>
   range_end (replace_of (getCompletionContext ''$.a[0].b'' (- 3)))
     = max 0 (min (- 3) (int (length ''$.a[0].b'')))"
  by (rule getCompletionContext_range)

section \<open>Properties of the PathCodec\<close>


lemma object_not_array: "object_of h v = Some obj \<Longrightarrow> array_of h v = None"
  by (auto simp: object_of_def array_of_def split: jsval.splits option.splits jsobj.splits)





subsection \<open>Escaping\<close>

lemma replace_pair_other:
  "x \<noteq> a \<Longrightarrow> replace_pair a b c (x # zs) = x # replace_pair a b c zs"
  by (cases zs) simp_all

lemma unescape_step1:
  "replace_pair CHR ''~'' CHR ''1'' CHR ''/'' (escape_token s)
     = concat (map (\<lambda>c. if c = CHR ''~'' then ''~0'' else [c]) s)"
proof (induction s)
  case Nil
  show ?case by (simp add: escape_token_def)
next
  case (Cons c s)
  have IH: "replace_pair CHR ''~'' CHR ''1'' CHR ''/''
              (concat (map (\<lambda>c. if c = CHR ''~'' then ''~0'' else if c = CHR ''/'' then ''~1'' else [c]) s))
            = concat (map (\<lambda>c. if c = CHR ''~'' then ''~0'' else [c]) s)"
    using Cons.IH by (simp add: escape_token_def)
  show ?case
    by (simp add: escape_token_def replace_pair_other IH)
qed

lemma unescape_step2:
  "replace_pair CHR ''~'' CHR ''0'' CHR ''~'' (concat (map (\<lambda>c. if c = CHR ''~'' then ''~0'' else [c]) s)) = s"
  by (induction s) (simp_all add: replace_pair_other)

lemma decode_escape_token: "decodeJsonPointerToken (escape_token s) = s"
  by (simp add: decodeJsonPointerToken_def unescape_step1 unescape_step2)

lemma escape_token_no_slash: "CHR ''/'' \<notin> set (escape_token s)"
  by (induction s) (auto simp: escape_token_def)

subsection \<open>Splitting\<close>

lemma split_on_no_sep: "sep \<notin> set t \<Longrightarrow> split_on sep t = [t]"
  by (induction t) auto

lemma split_on_append:
  "sep \<notin> set t \<Longrightarrow> split_on sep (t @ sep # rest) = t # split_on sep rest"
  by (induction t) auto

lemma split_on_join:
  "ts \<noteq> [] \<Longrightarrow> \<forall>t\<in>set ts. CHR ''/'' \<notin> set t \<Longrightarrow> split_on CHR ''/'' (join ''/'' ts) = ts"
proof (induction ts)
  case Nil
  then show ?case by simp
next
  case (Cons t ts)
  show ?case
  proof (cases ts)
    case Nil
    with Cons.prems show ?thesis by (simp add: split_on_no_sep)
  next
    case (Cons u us)
    with Cons.prems Cons.IH have "split_on CHR ''/'' (join ''/'' ts) = ts" by simp
    with Cons Cons.prems show ?thesis
      using split_on_append [of "CHR ''/''" t "join ''/'' ts"] by simp
  qed
qed

subsection \<open>Decimal numerals\<close>

lemma digit_chars: "map (\<lambda>d::nat. char_of (48 + d)) [0..<10] = ''0123456789''"
  by code_simp

lemma nonzero_digit_chars: "map (\<lambda>d::nat. char_of (48 + d)) [1..<10] = ''123456789''"
  by code_simp

lemma digit_char: "d < 10 \<Longrightarrow> char_of (48 + d) \<in> set ''0123456789''" for d :: nat
proof -
  assume "d < 10"
  then have "char_of (48 + d) \<in> set (map (\<lambda>d::nat. char_of (48 + d)) [0..<10])"
    by (auto simp del: upt_Suc)
  then show ?thesis by (simp only: digit_chars)
qed

lemma digit_value_char: "d < 10 \<Longrightarrow> digit_value (char_of (48 + d)) = d" for d :: nat
  by (simp add: digit_value_def)

lemma nonzero_digit_char: "0 < d \<Longrightarrow> d < 10 \<Longrightarrow> char_of (48 + d) \<in> set ''123456789''" for d :: nat
proof -
  assume "0 < d" "d < 10"
  then have "char_of (48 + d) \<in> set (map (\<lambda>d::nat. char_of (48 + d)) [1..<10])"
    by (auto simp del: upt_Suc)
  then show ?thesis by (simp only: nonzero_digit_chars)
qed

lemma decimal_digits: "list_all is_digit (decimal n)"
proof (induction n rule: decimal.induct)
  case (1 n)
  show ?case
  proof (cases "n < 10")
    case True
    then show ?thesis using digit_char [of n] by (simp add: decimal.simps [of n] is_digit_def)
  next
    case False
    with 1 show ?thesis
      using digit_char [of "n mod 10"] by (simp add: decimal.simps [of n] is_digit_def)
  qed
qed

lemma decimal_nonempty: "decimal n \<noteq> []"
  by (subst decimal.simps) simp

lemma decimal_hd: "0 < n \<Longrightarrow> hd (decimal n) \<in> set ''123456789''"
proof (induction n rule: decimal.induct)
  case (1 n)
  show ?case
  proof (cases "n < 10")
    case True
    with "1.prems" show ?thesis
      using nonzero_digit_char [of n] by (simp add: decimal.simps [of n])
  next
    case False
    then have "0 < n div 10" by simp
    with 1 False have "hd (decimal (n div 10)) \<in> set ''123456789''" by simp
    with False show ?thesis
      by (simp add: decimal.simps [of n] decimal_nonempty)
  qed
qed

lemma isIndex_decimal: "isIndex (decimal n)"
proof (cases "n = 0")
  case True
  have "decimal 0 = ''0''" by code_simp
  with True show ?thesis by (simp add: isIndex_def)
next
  case False
  then have hd: "hd (decimal n) \<in> set ''123456789''" using decimal_hd by simp
  obtain c cs where cs: "decimal n = c # cs"
    using decimal_nonempty [of n] by (cases "decimal n") auto
  with decimal_digits [of n] hd show ?thesis
    by (simp add: isIndex_def)
qed

lemma Number_of_digits_snoc:
  "Number_of_digits (ds @ [c]) = 10 * Number_of_digits ds + digit_value c"
  by (simp add: Number_of_digits_def)

lemma Number_of_digits_decimal: "Number_of_digits (decimal n) = n"
proof (induction n rule: decimal.induct)
  case (1 n)
  show ?case
  proof (cases "n < 10")
    case True
    then show ?thesis
      by (simp add: decimal.simps [of n] Number_of_digits_def digit_value_char)
  next
    case False
    with 1 have "Number_of_digits (decimal (n div 10)) = n div 10" by simp
    with False show ?thesis
      by (simp add: decimal.simps [of n] Number_of_digits_snoc digit_value_char)
  qed
qed

lemma escape_token_digits: "list_all is_digit s \<Longrightarrow> escape_token s = s"
  by (induction s) (auto simp: escape_token_def is_digit_def)

lemma escape_token_decimal: "escape_token (decimal n) = decimal n"
  by (rule escape_token_digits) (rule decimal_digits)


subsection \<open>Round trip\<close>

lemma read_undefined: "read h JUndefined q = JUndefined"
proof (cases q)
  case Nil then show ?thesis by simp
next
  case (Cons t q')
  then show ?thesis by (cases t) (simp_all add: array_of_def object_of_def)
qed

lemma read_Cons: "read h v (seg # rest) = read h (read h v [seg]) rest"
  by (cases seg) (simp_all add: read_undefined split: option.splits)

lemma resolves_Nil: "resolves h D []"
  by (simp add: resolves_def)

lemma resolves_Cons:
  "resolves h D (seg # rest) \<longleftrightarrow> fits h D seg \<and> resolves h (read h D [seg]) rest"
proof -
  have "resolves h D (seg # rest)
          \<longleftrightarrow> (\<forall>n<Suc (length rest). fits h (read h D (take n (seg # rest))) ((seg # rest) ! n))"
    by (auto simp add: resolves_def list_all_iff simp del: upt_Suc)
  also have "\<dots> \<longleftrightarrow> fits h (read h D []) seg \<and>
      (\<forall>n<length rest. fits h (read h D (take (Suc n) (seg # rest))) ((seg # rest) ! Suc n))"
    by (auto simp: less_Suc_eq_0_disj)
  also have "\<dots> \<longleftrightarrow> fits h D seg \<and>
      (\<forall>n<length rest. fits h (read h (read h D [seg]) (take n rest)) (rest ! n))"
  proof -
    have "read h D (take (Suc n) (seg # rest)) = read h (read h D [seg]) (take n rest)" for n
      by (simp only: take_Suc_Cons) (rule read_Cons)
    then show ?thesis by (simp only: read.simps nth_Cons_Suc)
  qed
  also have "\<dots> \<longleftrightarrow> fits h D seg \<and> resolves h (read h D [seg]) rest"
    by (auto simp add: resolves_def list_all_iff)
  finally show ?thesis .
qed

lemma jsonPointerToPath_loop_resolves:
  "resolves h cur P \<Longrightarrow> jsonPointerToPath_loop h (map segment_token P) acc cur = acc @ P"
proof (induction P arbitrary: acc cur)
  case Nil
  show ?case by simp
next
  case (Cons seg P)
  from Cons.prems have f: "fits h cur seg" and r: "resolves h (read h cur [seg]) P"
    by (simp_all add: resolves_Cons)
  show ?case
  proof (cases seg)
    case (Key k)
    with f obtain obj where obj: "object_of h cur = Some obj" by (auto simp: fits_def)
    then have arr: "array_of h cur = None" by (rule object_not_array)
    have "jsonPointerToPath_loop h (map segment_token (seg # P)) acc cur
            = jsonPointerToPath_loop h (map segment_token P) (acc @ [Key k]) (obj_get obj k)"
      using Key obj arr by (simp add: segment_token_def)
    also have "\<dots> = (acc @ [Key k]) @ P"
      using Cons.IH [of "obj_get obj k" "acc @ [Key k]"] r Key obj by simp
    finally show ?thesis using Key by simp
  next
    case (Index i)
    with f obtain xs where xs: "array_of h cur = Some xs" by (auto simp: fits_def)
    have "jsonPointerToPath_loop h (map segment_token (seg # P)) acc cur
            = jsonPointerToPath_loop h (map segment_token P) (acc @ [Index i]) (arr_get xs i)"
      using Index xs by (simp add: segment_token_def isIndex_decimal Number_of_digits_decimal)
    also have "\<dots> = (acc @ [Index i]) @ P"
      using Cons.IH [of "arr_get xs i" "acc @ [Index i]"] r Index xs by simp
    finally show ?thesis using Index by simp
  qed
qed

lemma pointer_parts_encode: "pointer_parts (encode P) = map segment_token P"
proof (cases "P = []")
  case True
  then show ?thesis by (simp add: encode_def pointer_parts_def)
next
  case False
  let ?ts = "map (\<lambda>seg. escape_token (segment_token seg)) P"
  have "split_on CHR ''/'' (join ''/'' ?ts) = ?ts"
    using False by (intro split_on_join) (auto simp: escape_token_no_slash)
  with False show ?thesis
    by (simp add: encode_def pointer_parts_def decode_escape_token comp_def)
qed

text \<open>
  Claim C8. PathCodec round trip: for every representable path \<open>P\<close> that resolves in
  the document \<open>D\<close> (every proper prefix reads a node of the container kind the next
  segment expects), decoding the encoding of \<open>P\<close> against \<open>D\<close> gives \<open>P\<close> again.
\<close>

theorem pointer_roundtrip:
  assumes "resolves h D P" and "representable P"
  shows "jsonPointerToPath h (encode P) D = Some P"
proof (cases "P = []")
  case True
  then show ?thesis by (simp add: encode_def jsonPointerToPath_def)
next
  case False
  then have "encode P \<noteq> []" and "startsWith (encode P) ''/''"
    by (simp_all add: encode_def startsWith_def)
  then show ?thesis
    using jsonPointerToPath_loop_resolves [OF assms(1), of "[]"]
    by (simp add: jsonPointerToPath_def pointer_parts_encode)
qed

theorem pointer_roundtrip_witness:
  "resolves [JObject [(''a/b'', JRef 1)], JArray [JNumber (10::int), JNumber 20]] (JRef 0)
     [Key ''a/b'', Index 7] \<and>
   representable [Key ''a/b'', Index 7] \<and>
   encode [Key ''a/b'', Index 7] = ''/a~1b/7'' \<and>
   jsonPointerToPath [JObject [(''a/b'', JRef 1)], JArray [JNumber (10::int), JNumber 20]]
     ''/a~1b/7'' (JRef 0) = Some [Key ''a/b'', Index 7]"
proof -
  let ?h = "[JObject [(''a/b'', JRef 1)], JArray [JNumber (10::int), JNumber 20]]"
  have r: "resolves ?h (JRef 0) [Key ''a/b'', Index 7]"
    by (simp add: resolves_Cons resolves_Nil fits_def object_of_def array_of_def heap_get_def obj_get_def)
  have p: "representable [Key ''a/b'', Index 7]"
    by (simp add: representable_def)
  have e: "encode [Key ''a/b'', Index 7] = ''/a~1b/7''"
    by code_simp
  from pointer_roundtrip [OF r p] r p e show ?thesis by simp
qed

section \<open>Properties of the DocumentModel\<close>

subsection \<open>Container lookups\<close>

lemma array_of_SomeD:
  "array_of h v = Some xs \<Longrightarrow> \<exists>a. v = JRef a \<and> a < length h \<and> h ! a = JArray xs"
  by (auto simp: array_of_def heap_get_def split: jsval.splits option.splits jsobj.splits if_splits)

lemma object_of_SomeD:
  "object_of h v = Some ps \<Longrightarrow> \<exists>a. v = JRef a \<and> a < length h \<and> h ! a = JObject ps"
  by (auto simp: object_of_def heap_get_def split: jsval.splits option.splits jsobj.splits if_splits)

lemma array_of_cong:
  "(\<And>a. v = JRef a \<Longrightarrow> heap_get g a = heap_get h a) \<Longrightarrow> array_of g v = array_of h v"
  by (cases v) (simp_all add: array_of_def)

lemma object_of_cong:
  "(\<And>a. v = JRef a \<Longrightarrow> heap_get g a = heap_get h a) \<Longrightarrow> object_of g v = object_of h v"
  by (cases v) (simp_all add: object_of_def)

lemma array_of_heap_get:
  "heap_get h a = Some (JArray xs) \<Longrightarrow> array_of h (JRef a) = Some xs"
  by (simp add: array_of_def)

lemma object_of_heap_get:
  "heap_get h a = Some (JObject ps) \<Longrightarrow> object_of h (JRef a) = Some ps"
  by (simp add: object_of_def)

lemma array_of_heap_get_obj:
  "heap_get h a = Some (JObject ps) \<Longrightarrow> array_of h (JRef a) = None"
  by (simp add: array_of_def)

lemma object_of_heap_get_arr:
  "heap_get h a = Some (JArray xs) \<Longrightarrow> object_of h (JRef a) = None"
  by (simp add: object_of_def)

lemma heap_get_take:
  "a < b \<Longrightarrow> take b g = take b h \<Longrightarrow> b \<le> length g \<Longrightarrow> b \<le> length h \<Longrightarrow> heap_get g a = heap_get h a"
proof -
  assume a: "a < b" and t: "take b g = take b h" and "b \<le> length g" "b \<le> length h"
  have "take b g ! a = take b h ! a" by (simp only: t)
  with a have "g ! a = h ! a" by simp
  with a \<open>b \<le> length g\<close> \<open>b \<le> length h\<close> show ?thesis by (simp add: heap_get_def)
qed

subsection \<open>Arrays and property lists\<close>

lemma arr_get_arr_set_same: "arr_get (arr_set xs i v) i = v"
  by (simp add: arr_get_def arr_set_def nth_append)

lemma arr_get_arr_set_other: "j \<noteq> i \<Longrightarrow> arr_get (arr_set xs i v) j = arr_get xs j"
  by (auto simp: arr_get_def arr_set_def nth_append)

lemma map_of_insert_index:
  "map_of (insert_index ps k v) k' = (if k' = k then Some v else map_of ps k')"
  if "k \<notin> fst ` set ps"
  using that by (induction ps) auto

lemma map_of_update_other:
  "k' \<noteq> k \<Longrightarrow> map_of (map (\<lambda>(k', v'). if k' = k then (k', v) else (k', v')) ps) k' = map_of ps k'"
  by (induction ps) auto

lemma map_of_update_same:
  "k \<in> fst ` set ps \<Longrightarrow> map_of (map (\<lambda>(k', v'). if k' = k then (k', v) else (k', v')) ps) k = Some v"
  by (induction ps) auto

lemma map_of_snoc:
  "map_of ps k = None \<Longrightarrow> map_of (ps @ [(k, v)]) k' = (if k' = k then Some v else map_of ps k')"
  by (auto simp: map_add_def split: option.splits)

lemma obj_get_obj_set: "obj_get (obj_set ps k v) k' = (if k' = k then v else obj_get ps k')"
proof (cases "hasOwn ps k")
  case True
  then have "k \<in> fst ` set ps" by (simp add: hasOwn_def)
  with True show ?thesis
    by (simp add: obj_get_def obj_set_def map_of_update_other map_of_update_same)
next
  case False
  then have nk: "k \<notin> fst ` set ps" by (simp add: hasOwn_def)
  show ?thesis
  proof (cases "is_array_index k")
    case True
    with False show ?thesis
      by (simp add: obj_get_def obj_set_def map_of_insert_index [OF nk])
  next
    case False
    from nk have none: "map_of ps k = None" by (simp add: map_of_eq_None_iff)
    have "obj_set ps k v = ps @ [(k, v)]"
      using False \<open>\<not> hasOwn ps k\<close> by (simp add: obj_set_def)
    then show ?thesis
      using map_of_snoc [OF none, of v k'] by (simp add: obj_get_def del: map_of_append)
  qed
qed


subsection \<open>Reading in the old part of a heap\<close>

lemma val_below_arr_get:
  "list_all (val_below b) xs \<Longrightarrow> val_below b (arr_get xs i)"
  by (simp add: arr_get_def list_all_length val_below_def)

lemma val_below_obj_get:
  "list_all (val_below b) (map snd ps) \<Longrightarrow> val_below b (obj_get ps k)"
proof -
  assume a: "list_all (val_below b) (map snd ps)"
  show ?thesis
  proof (cases "map_of ps k")
    case None
    then show ?thesis by (simp add: obj_get_def val_below_def)
  next
    case (Some v)
    then have "(k, v) \<in> set ps" by (rule map_of_SomeD)
    then have "v \<in> set (map snd ps)" by force
    with a have "val_below b v" by (auto simp: list_all_iff)
    with Some show ?thesis by (simp add: obj_get_def)
  qed
qed

lemma closed_upto_cell:
  "closed_upto b h \<Longrightarrow> a < b \<Longrightarrow> list_all (val_below b) (obj_values (h ! a))"
proof -
  assume c: "closed_upto b h" and a: "a < b"
  then have "b \<le> length h" by (simp add: closed_upto_def)
  with a have "h ! a \<in> set (take b h)"
    by (metis in_set_conv_nth length_take min.absorb2 nth_take)
  with c show ?thesis by (simp add: closed_upto_def list_all_iff)
qed

lemma closed_upto_array:
  "closed_upto b h \<Longrightarrow> val_below b v \<Longrightarrow> array_of h v = Some xs \<Longrightarrow> list_all (val_below b) xs"
proof -
  assume c: "closed_upto b h" and v: "val_below b v" and x: "array_of h v = Some xs"
  from x obtain a where a: "v = JRef a" "h ! a = JArray xs" by (auto dest: array_of_SomeD)
  with v have "a < b" by (simp add: val_below_def)
  from closed_upto_cell [OF c this] a show ?thesis by (simp add: obj_values_def)
qed

lemma closed_upto_object:
  "closed_upto b h \<Longrightarrow> val_below b v \<Longrightarrow> object_of h v = Some ps
     \<Longrightarrow> list_all (val_below b) (map snd ps)"
proof -
  assume c: "closed_upto b h" and v: "val_below b v" and x: "object_of h v = Some ps"
  from x obtain a where a: "v = JRef a" "h ! a = JObject ps" by (auto dest: object_of_SomeD)
  with v have "a < b" by (simp add: val_below_def)
  from closed_upto_cell [OF c this] a show ?thesis by (simp add: obj_values_def)
qed

lemma same_below:
  assumes "val_below b v" "take b g = take b h" "b \<le> length g" "b \<le> length h"
  shows "array_of g v = array_of h v" and "object_of g v = object_of h v"
proof -
  have "heap_get g a = heap_get h a" if "v = JRef a" for a
  proof -
    from that assms(1) have "a < b" by (simp add: val_below_def)
    then show ?thesis using assms(2-4) by (rule heap_get_take)
  qed
  then show "array_of g v = array_of h v" and "object_of g v = object_of h v"
    by (auto intro: array_of_cong object_of_cong)
qed

lemma read_old:
  assumes "closed_upto b h" "take b g = take b h" "b \<le> length g"
  shows "val_below b x \<Longrightarrow> read g x Q = read h x Q"
proof (induction Q arbitrary: x)
  case Nil
  show ?case by simp
next
  case (Cons s Q)
  from assms(1) have bh: "b \<le> length h" by (simp add: closed_upto_def)
  note same = same_below [OF Cons.prems assms(2) assms(3) bh]
  show ?case
  proof (cases s)
    case (Key k)
    show ?thesis
    proof (cases "object_of h x")
      case None
      with Key same show ?thesis by simp
    next
      case (Some ps)
      from closed_upto_object [OF assms(1) Cons.prems Some]
      have "val_below b (obj_get ps k)" by (rule val_below_obj_get)
      then have "read g (obj_get ps k) Q = read h (obj_get ps k) Q" by (rule Cons.IH)
      with Key Some same show ?thesis by simp
    qed
  next
    case (Index i)
    show ?thesis
    proof (cases "array_of h x")
      case None
      with Index same show ?thesis by simp
    next
      case (Some xs)
      from closed_upto_array [OF assms(1) Cons.prems Some]
      have "val_below b (arr_get xs i)" by (rule val_below_arr_get)
      then have "read g (arr_get xs i) Q = read h (arr_get xs i) Q" by (rule Cons.IH)
      with Index Some same show ?thesis by simp
    qed
  qed
qed

subsection \<open>updateAtPath only adds cells\<close>

lemma updateAtPath_extends:
  "updateAtPath h c P v = (r, h') \<Longrightarrow> length h \<le> length h' \<and> take (length h) h' = h"
proof (induction P arbitrary: h c r h')
  case Nil
  then show ?case by simp
next
  case (Cons s P)
  show ?case
  proof (cases s)
    case (Index i)
    show ?thesis
    proof (cases "array_of h c")
      case None
      with Cons.prems Index show ?thesis by simp
    next
      case (Some xs)
      obtain v' h2 where rec: "updateAtPath (h @ [JArray xs]) (arr_get xs i) P v = (v', h2)"
        by (cases "updateAtPath (h @ [JArray xs]) (arr_get xs i) P v")
      from Cons.IH [OF rec] have le: "Suc (length h) \<le> length h2"
        and tk: "take (Suc (length h)) h2 = h @ [JArray xs]" by simp_all
      from Cons.prems Index Some rec
      have h': "h' = h2[length h := JArray (arr_set xs i v')]"
        by (simp add: alloc_def)
      have "take (length h) h2 = take (length h) (take (Suc (length h)) h2)" by (simp add: min_def)
      also have "\<dots> = h" by (simp only: tk) simp
      finally show ?thesis using le h' by simp
    qed
  next
    case (Key k)
    show ?thesis
    proof (cases "object_of h c")
      case None
      with Cons.prems Key show ?thesis by simp
    next
      case (Some obj)
      obtain v' h2 where rec: "updateAtPath (h @ [JObject obj]) (obj_get obj k) P v = (v', h2)"
        by (cases "updateAtPath (h @ [JObject obj]) (obj_get obj k) P v")
      from Cons.IH [OF rec] have le: "Suc (length h) \<le> length h2"
        and tk: "take (Suc (length h)) h2 = h @ [JObject obj]" by simp_all
      from Cons.prems Key Some rec
      have h': "h' = h2[length h := JObject (obj_set obj k v')]"
        by (simp add: alloc_def)
      have "take (length h) h2 = take (length h) (take (Suc (length h)) h2)" by (simp add: min_def)
      also have "\<dots> = h" by (simp only: tk) simp
      finally show ?thesis using le h' by simp
    qed
  qed
qed

lemma resolves_extend:
  "resolves h x P \<Longrightarrow> length h \<le> length g \<Longrightarrow> take (length h) g = h \<Longrightarrow> resolves g x P"
proof (induction P arbitrary: x)
  case Nil
  show ?case by (rule resolves_Nil)
next
  case (Cons s P)
  from Cons.prems(1) have f: "fits h x s" and r: "resolves h (read h x [s]) P"
    by (simp_all add: resolves_Cons)
  have get: "heap_get g a = heap_get h a" if "a < length h" for a
    using that Cons.prems(2,3) by (intro heap_get_take [of a "length h"]) simp_all
  show ?case
  proof (cases s)
    case (Index i)
    with f obtain xs where xs: "array_of h x = Some xs" by (auto simp: fits_def)
    then obtain a where a: "x = JRef a" "a < length h" by (auto dest: array_of_SomeD)
    with xs get [of a] have xs': "array_of g x = Some xs" by (simp add: array_of_def)
    from r Index xs have "resolves h (arr_get xs i) P" by simp
    then have "resolves g (arr_get xs i) P" using Cons.prems(2,3) by (rule Cons.IH)
    with Index xs' show ?thesis by (simp add: resolves_Cons fits_def)
  next
    case (Key k)
    with f obtain ps where ps: "object_of h x = Some ps" by (auto simp: fits_def)
    then obtain a where a: "x = JRef a" "a < length h" by (auto dest: object_of_SomeD)
    with ps get [of a] have ps': "object_of g x = Some ps" by (simp add: object_of_def)
    from r Key ps have "resolves h (obj_get ps k) P" by simp
    then have "resolves g (obj_get ps k) P" using Cons.prems(2,3) by (rule Cons.IH)
    with Key ps' show ?thesis by (simp add: resolves_Cons fits_def)
  qed
qed

subsection \<open>Reading back what was written\<close>

lemma updateAtPath_read_back:
  "resolves h c P \<Longrightarrow> updateAtPath h c P v = (r, h') \<Longrightarrow>
   (\<And>a. length h \<le> a \<Longrightarrow> a < length h' \<Longrightarrow> heap_get g a = heap_get h' a) \<Longrightarrow>
   read g r P = v"
proof (induction P arbitrary: h c r h')
  case Nil
  then show ?case by simp
next
  case (Cons s P)
  from Cons.prems(1) have f: "fits h c s" and res: "resolves h (read h c [s]) P"
    by (simp_all add: resolves_Cons)
  show ?case
  proof (cases s)
    case (Index i)
    with f obtain xs where xs: "array_of h c = Some xs" by (auto simp: fits_def)
    let ?h1 = "h @ [JArray xs]"
    obtain v' h2 where rec: "updateAtPath ?h1 (arr_get xs i) P v = (v', h2)"
      by (cases "updateAtPath ?h1 (arr_get xs i) P v")
    from updateAtPath_extends [OF rec] have le: "Suc (length h) \<le> length h2" by simp
    from Cons.prems(2) Index xs rec
    have r: "r = JRef (length h)" and h': "h' = h2[length h := JArray (arr_set xs i v')]"
      by (simp_all add: alloc_def)
    from res Index xs have "resolves h (arr_get xs i) P" by simp
    then have res1: "resolves ?h1 (arr_get xs i) P" by (rule resolves_extend) simp_all
    have agree: "heap_get g a = heap_get h2 a" if "length ?h1 \<le> a" "a < length h2" for a
    proof -
      from that have "heap_get g a = heap_get h' a" by (intro Cons.prems(3)) (simp_all add: h')
      also have "\<dots> = heap_get h2 a" using that by (simp add: h' heap_get_def)
      finally show ?thesis .
    qed
    have rb: "read g v' P = v" using res1 rec agree by (rule Cons.IH)
    have "heap_get g (length h) = heap_get h' (length h)"
      using le by (intro Cons.prems(3)) (simp_all add: h')
    also have "\<dots> = Some (JArray (arr_set xs i v'))" using le by (simp add: h' heap_get_def)
    finally have "array_of g r = Some (arr_set xs i v')"
      unfolding r by (rule array_of_heap_get)
    with Index rb show ?thesis by (simp add: arr_get_arr_set_same)
  next
    case (Key k)
    with f obtain obj where obj: "object_of h c = Some obj" by (auto simp: fits_def)
    let ?h1 = "h @ [JObject obj]"
    obtain v' h2 where rec: "updateAtPath ?h1 (obj_get obj k) P v = (v', h2)"
      by (cases "updateAtPath ?h1 (obj_get obj k) P v")
    from updateAtPath_extends [OF rec] have le: "Suc (length h) \<le> length h2" by simp
    from Cons.prems(2) Key obj rec
    have r: "r = JRef (length h)" and h': "h' = h2[length h := JObject (obj_set obj k v')]"
      by (simp_all add: alloc_def)
    from res Key obj have "resolves h (obj_get obj k) P" by simp
    then have res1: "resolves ?h1 (obj_get obj k) P" by (rule resolves_extend) simp_all
    have agree: "heap_get g a = heap_get h2 a" if "length ?h1 \<le> a" "a < length h2" for a
    proof -
      from that have "heap_get g a = heap_get h' a" by (intro Cons.prems(3)) (simp_all add: h')
      also have "\<dots> = heap_get h2 a" using that by (simp add: h' heap_get_def)
      finally show ?thesis .
    qed
    have rb: "read g v' P = v" using res1 rec agree by (rule Cons.IH)
    have "heap_get g (length h) = heap_get h' (length h)"
      using le by (intro Cons.prems(3)) (simp_all add: h')
    also have "\<dots> = Some (JObject (obj_set obj k v'))" using le by (simp add: h' heap_get_def)
    finally have "object_of g r = Some (obj_set obj k v')"
      unfolding r by (rule object_of_heap_get)
    with Key rb show ?thesis by (simp add: obj_get_obj_set)
  qed
qed

subsection \<open>Nodes beside the written path\<close>

lemma array_not_object: "array_of h v = Some xs \<Longrightarrow> object_of h v = None"
  by (auto simp: object_of_def array_of_def split: jsval.splits option.splits jsobj.splits)

lemma closed_upto_extend:
  "closed_upto b h \<Longrightarrow> take b g = take b h \<Longrightarrow> b \<le> length g \<Longrightarrow> closed_upto b g"
  by (simp add: closed_upto_def)

lemma off_path_Nil_right: "\<not> off_path P []"
  by (simp add: off_path_def)

lemma off_path_Nil_left: "\<not> off_path [] Q"
  by (simp add: off_path_def)

lemma off_path_Cons: "off_path (s # P) (t # Q) \<longleftrightarrow> s \<noteq> t \<or> off_path P Q"
  by (auto simp: off_path_def)

lemma updateAtPath_beside:
  "closed_upto b h \<Longrightarrow> val_below b c \<Longrightarrow> updateAtPath h c P v = (r, h') \<Longrightarrow>
   (\<And>a. length h \<le> a \<Longrightarrow> a < length h' \<Longrightarrow> heap_get g a = heap_get h' a) \<Longrightarrow>
   take b g = take b h \<Longrightarrow> b \<le> length g \<Longrightarrow> off_path P Q \<Longrightarrow>
   read g r Q = read h c Q"
proof (induction P arbitrary: h c r h' Q)
  case Nil
  then show ?case by (simp add: off_path_Nil_left)
next
  case (Cons s P)
  note closed = Cons.prems(1) and below = Cons.prems(2) and upd = Cons.prems(3)
    and new = Cons.prems(4) and old = Cons.prems(5) and bg = Cons.prems(6)
  from closed have bh: "b \<le> length h" by (simp add: closed_upto_def)
  from Cons.prems(7) obtain t Q' where Q: "Q = t # Q'" and off: "s \<noteq> t \<or> off_path P Q'"
    by (cases Q) (auto simp: off_path_Nil_right off_path_Cons)
  have unchanged: "read g c Q = read h c Q"
    using closed old bg below by (rule read_old)
  show ?case
  proof (cases s)
    case (Index i)
    show ?thesis
    proof (cases "array_of h c")
      case None
      with upd Index unchanged show ?thesis by simp
    next
      case (Some xs)
      let ?h1 = "h @ [JArray xs]"
      obtain v' h2 where rec: "updateAtPath ?h1 (arr_get xs i) P v = (v', h2)"
        by (cases "updateAtPath ?h1 (arr_get xs i) P v")
      from updateAtPath_extends [OF rec] have le: "Suc (length h) \<le> length h2" by simp
      from upd Index Some rec
      have r: "r = JRef (length h)" and h': "h' = h2[length h := JArray (arr_set xs i v')]"
        by (simp_all add: alloc_def)
      have "heap_get g (length h) = heap_get h' (length h)"
        using le by (intro new) (simp_all add: h')
      also have "\<dots> = Some (JArray (arr_set xs i v'))" using le by (simp add: h' heap_get_def)
      finally have cell: "heap_get g (length h) = Some (JArray (arr_set xs i v'))" .
      have elems: "list_all (val_below b) xs"
        using closed below Some by (rule closed_upto_array)
      have old1: "take b ?h1 = take b h" using bh by simp
      show ?thesis
      proof (cases t)
        case (Key k)
        from cell have "object_of g r = None" unfolding r by (rule object_of_heap_get_arr)
        moreover from Some have "object_of h c = None" by (rule array_not_object)
        ultimately show ?thesis using Q Key by simp
      next
        case t: (Index j)
        from cell have arr: "array_of g r = Some (arr_set xs i v')"
          unfolding r by (rule array_of_heap_get)
        show ?thesis
        proof (cases "j = i")
          case True
          with off Index t have offP: "off_path P Q'" by simp
          have closed1: "closed_upto b ?h1"
            using closed old1 by (rule closed_upto_extend) (use bh in simp)
          have below1: "val_below b (arr_get xs i)" using elems by (rule val_below_arr_get)
          have agree: "heap_get g a = heap_get h2 a" if "length ?h1 \<le> a" "a < length h2" for a
          proof -
            from that have "heap_get g a = heap_get h' a" by (intro new) (simp_all add: h')
            also have "\<dots> = heap_get h2 a" using that by (simp add: h' heap_get_def)
            finally show ?thesis .
          qed
          have "take b g = take b ?h1" using old old1 by simp
          with closed1 below1 rec agree have "read g v' Q' = read ?h1 (arr_get xs i) Q'"
            using bg offP by (intro Cons.IH [of ?h1 "arr_get xs i" v' h2 Q']) 
          also have "\<dots> = read h (arr_get xs i) Q'"
            using closed old1 _ below1 by (rule read_old) (use bh in simp)
          finally show ?thesis
            using Q t True arr Some by (simp add: arr_get_arr_set_same)
        next
          case False
          have "val_below b (arr_get xs j)" using elems by (rule val_below_arr_get)
          with closed old bg have "read g (arr_get xs j) Q' = read h (arr_get xs j) Q'"
            by (rule read_old)
          with False Q t arr Some show ?thesis by (simp add: arr_get_arr_set_other)
        qed
      qed
    qed
  next
    case (Key k)
    show ?thesis
    proof (cases "object_of h c")
      case None
      with upd Key unchanged show ?thesis by simp
    next
      case (Some obj)
      let ?h1 = "h @ [JObject obj]"
      obtain v' h2 where rec: "updateAtPath ?h1 (obj_get obj k) P v = (v', h2)"
        by (cases "updateAtPath ?h1 (obj_get obj k) P v")
      from updateAtPath_extends [OF rec] have le: "Suc (length h) \<le> length h2" by simp
      from upd Key Some rec
      have r: "r = JRef (length h)" and h': "h' = h2[length h := JObject (obj_set obj k v')]"
        by (simp_all add: alloc_def)
      have "heap_get g (length h) = heap_get h' (length h)"
        using le by (intro new) (simp_all add: h')
      also have "\<dots> = Some (JObject (obj_set obj k v'))" using le by (simp add: h' heap_get_def)
      finally have cell: "heap_get g (length h) = Some (JObject (obj_set obj k v'))" .
      have elems: "list_all (val_below b) (map snd obj)"
        using closed below Some by (rule closed_upto_object)
      have old1: "take b ?h1 = take b h" using bh by simp
      show ?thesis
      proof (cases t)
        case (Index j)
        from cell have "array_of g r = None" unfolding r by (rule array_of_heap_get_obj)
        moreover from Some have "array_of h c = None" by (rule object_not_array)
        ultimately show ?thesis using Q Index by simp
      next
        case t: (Key k')
        from cell have ob: "object_of g r = Some (obj_set obj k v')"
          unfolding r by (rule object_of_heap_get)
        show ?thesis
        proof (cases "k' = k")
          case True
          with off Key t have offP: "off_path P Q'" by simp
          have closed1: "closed_upto b ?h1"
            using closed old1 by (rule closed_upto_extend) (use bh in simp)
          have below1: "val_below b (obj_get obj k)" using elems by (rule val_below_obj_get)
          have agree: "heap_get g a = heap_get h2 a" if "length ?h1 \<le> a" "a < length h2" for a
          proof -
            from that have "heap_get g a = heap_get h' a" by (intro new) (simp_all add: h')
            also have "\<dots> = heap_get h2 a" using that by (simp add: h' heap_get_def)
            finally show ?thesis .
          qed
          have "take b g = take b ?h1" using old old1 by simp
          with closed1 below1 rec agree have "read g v' Q' = read ?h1 (obj_get obj k) Q'"
            using bg offP by (intro Cons.IH [of ?h1 "obj_get obj k" v' h2 Q'])
          also have "\<dots> = read h (obj_get obj k) Q'"
            using closed old1 _ below1 by (rule read_old) (use bh in simp)
          finally show ?thesis
            using Q t True ob Some by (simp add: obj_get_obj_set)
        next
          case False
          have "val_below b (obj_get obj k')" using elems by (rule val_below_obj_get)
          with closed old bg have "read g (obj_get obj k') Q' = read h (obj_get obj k') Q'"
            by (rule read_old)
          with False Q t ob Some show ?thesis by (simp add: obj_get_obj_set)
        qed
      qed
    qed
  qed
qed

text \<open>
  Claim C1, amended. For every closed heap, every document \<open>D\<close> in it, every path \<open>P\<close>
  that resolves in \<open>D\<close> (each segment meets a container of its kind; the last segment
  may name a missing key or an index past the end) and every value \<open>v\<close>: reading \<open>P\<close>
  back after \<open>updateAtPath\<close> gives \<open>v\<close>; every node beside the path reads as the very
  same value as before, for a container the same reference; and no cell of the heap
  before the write is changed, so those references still denote the same containers.
\<close>

theorem updateAtPath_read_back_and_sharing:
  assumes "heap_closed h" and "val_below (length h) D" and "resolves h D P"
    and "updateAtPath h D P v = (D', h')"
  shows "read h' D' P = v \<and>
         (\<forall>Q. off_path P Q \<longrightarrow> read h' D' Q = read h D Q) \<and>
         take (length h) h' = h"
proof -
  from updateAtPath_extends [OF assms(4)]
  have le: "length h \<le> length h'" and old: "take (length h) h' = h" by simp_all
  have "read h' D' P = v"
    using assms(3,4) by (rule updateAtPath_read_back) simp
  moreover have "read h' D' Q = read h D Q" if "off_path P Q" for Q
    using assms(1) [unfolded heap_closed_def] assms(2,4) _ _ le that
    by (rule updateAtPath_beside) (simp_all add: old)
  ultimately show ?thesis using old by blast
qed

theorem updateAtPath_read_back_and_sharing_witness:
  "heap_closed [JObject [(''a'', JRef 1), (''c'', JRef 2)], JObject [(''b'', JNumber (1::int))],
                JArray [JNumber 10, JNumber 20]] \<and>
   val_below 3 (JRef 0 :: int jsval) \<and>
   resolves [JObject [(''a'', JRef 1), (''c'', JRef 2)], JObject [(''b'', JNumber (1::int))],
             JArray [JNumber 10, JNumber 20]] (JRef 0) [Key ''a'', Key ''b''] \<and>
   updateAtPath [JObject [(''a'', JRef 1), (''c'', JRef 2)], JObject [(''b'', JNumber (1::int))],
                 JArray [JNumber 10, JNumber 20]] (JRef 0) [Key ''a'', Key ''b''] (JNumber 7)
     = (JRef 3, [JObject [(''a'', JRef 1), (''c'', JRef 2)], JObject [(''b'', JNumber 1)],
                 JArray [JNumber 10, JNumber 20],
                 JObject [(''a'', JRef 4), (''c'', JRef 2)], JObject [(''b'', JNumber 7)]]) \<and>
   read [JObject [(''a'', JRef 1), (''c'', JRef 2)], JObject [(''b'', JNumber 1)],
         JArray [JNumber 10, JNumber 20],
         JObject [(''a'', JRef 4), (''c'', JRef 2)], JObject [(''b'', JNumber 7)]]
        (JRef 3) [Key ''a'', Key ''b''] = JNumber (7::int) \<and>
   off_path [Key ''a'', Key ''b''] [Key ''c''] \<and>
   read [JObject [(''a'', JRef 1), (''c'', JRef 2)], JObject [(''b'', JNumber 1)],
         JArray [JNumber 10, JNumber 20],
         JObject [(''a'', JRef 4), (''c'', JRef 2)], JObject [(''b'', JNumber 7)]]
        (JRef 3) [Key ''c'']
     = read [JObject [(''a'', JRef 1), (''c'', JRef 2)], JObject [(''b'', JNumber (1::int))],
             JArray [JNumber 10, JNumber 20]] (JRef 0) [Key ''c'']"
proof -
  let ?h = "[JObject [(''a'', JRef 1), (''c'', JRef 2)], JObject [(''b'', JNumber (1::int))],
             JArray [JNumber 10, JNumber 20]]"
  let ?h' = "[JObject [(''a'', JRef 1), (''c'', JRef 2)], JObject [(''b'', JNumber (1::int))],
              JArray [JNumber 10, JNumber 20],
              JObject [(''a'', JRef 4), (''c'', JRef 2)], JObject [(''b'', JNumber 7)]]"
  have c: "heap_closed ?h"
    by (simp add: heap_closed_def closed_upto_def obj_values_def val_below_def)
  have b: "val_below (length ?h) (JRef 0 :: int jsval)"
    by (simp add: val_below_def)
  have r: "resolves ?h (JRef 0) [Key ''a'', Key ''b'']"
    by (simp add: resolves_Cons resolves_Nil fits_def object_of_def heap_get_def obj_get_def)
  have u: "updateAtPath ?h (JRef 0) [Key ''a'', Key ''b''] (JNumber 7) = (JRef 3, ?h')"
    by code_simp
  have o: "off_path [Key ''a'', Key ''b''] [Key ''c'']"
    by (simp add: off_path_def)
  from updateAtPath_read_back_and_sharing [OF c b r u] o
  have "read ?h' (JRef 3) [Key ''a'', Key ''b''] = JNumber 7"
    and "read ?h' (JRef 3) [Key ''c''] = read ?h (JRef 0) [Key ''c'']"
    by blast+
  moreover have "val_below 3 (JRef 0 :: int jsval)"
    by (simp add: val_below_def)
  ultimately show ?thesis using c r u o by blast
qed

text \<open>
  Claim C1 as stated, for every document and every non-empty path, fails where a
  segment meets a value that is not a container of its kind. In the document
  \<open>{"a": 5}\<close> the path \<open>["a", "b"]\<close> does not hold \<open>1\<close>; after writing \<open>1\<close> there the
  path still reads \<open>undefined\<close>, because \<open>updateAtPath\<close> returns the number \<open>5\<close> as
  it is.
\<close>

theorem updateAtPath_mismatch_not_read_back:
  "read [JObject [(''a'', JNumber (5::int))]] (JRef 0) [Key ''a'', Key ''b''] \<noteq> JNumber 1 \<and>
   read (snd (updateAtPath [JObject [(''a'', JNumber (5::int))]] (JRef 0) [Key ''a'', Key ''b''] (JNumber 1)))
        (fst (updateAtPath [JObject [(''a'', JNumber (5::int))]] (JRef 0) [Key ''a'', Key ''b''] (JNumber 1)))
        [Key ''a'', Key ''b'']
     \<noteq> JNumber 1"
  by code_simp

text \<open>
  Claim C2. Where \<open>read(D, P)\<close> is \<open>undefined\<close>, \<open>deleteAtPath\<close> is claimed to return
  \<open>D\<close> itself, also when the first failing segment lies deeper than the root. It does
  not. In \<open>{"a": {"b": 1}}\<close> the path \<open>["a", "c", "d"]\<close> reads \<open>undefined\<close>, yet the
  result is a new root whose \<open>a\<close> is a new object that has gained the property \<open>c\<close>
  with value \<open>undefined\<close>. The path \<open>["a", "zz"]\<close> reads \<open>undefined\<close> too; the inner
  call returns its input, but the root is copied all the same: a different reference
  with the same content.
\<close>

theorem deleteAtPath_missing_path_copies:
  "read [JObject [(''a'', JRef 1)], JObject [(''b'', JNumber (1::int))]] (JRef 0)
        [Key ''a'', Key ''c'', Key ''d''] = JUndefined \<and>
   deleteAtPath [JObject [(''a'', JRef 1)], JObject [(''b'', JNumber (1::int))]] (JRef 0)
        [Key ''a'', Key ''c'', Key ''d'']
     = (JRef 2, [JObject [(''a'', JRef 1)], JObject [(''b'', JNumber 1)],
                 JObject [(''a'', JRef 3)], JObject [(''b'', JNumber 1), (''c'', JUndefined)]]) \<and>
   read [JObject [(''a'', JRef 1)], JObject [(''b'', JNumber (1::int))]] (JRef 0)
        [Key ''a'', Key ''zz''] = JUndefined \<and>
   deleteAtPath [JObject [(''a'', JRef 1)], JObject [(''b'', JNumber (1::int))]] (JRef 0)
        [Key ''a'', Key ''zz'']
     = (JRef 2, [JObject [(''a'', JRef 1)], JObject [(''b'', JNumber 1)],
                 JObject [(''a'', JRef 1)]])"
  by code_simp

section \<open>Properties of the EditReconciler\<close>






section \<open>Properties of renameKeyAtPath\<close>

subsection \<open>Canonical numeric strings are determined by their value\<close>

lemma digit_char_value: "c \<in> set ''0123456789'' \<Longrightarrow> char_of (48 + digit_value c) = c"
proof -
  have "map (\<lambda>c. char_of (48 + digit_value c)) ''0123456789'' = ''0123456789''"
    by code_simp
  then have "\<forall>c\<in>set ''0123456789''. char_of (48 + digit_value c) = c"
    by (simp add: digit_value_def)
  then show "c \<in> set ''0123456789'' \<Longrightarrow> char_of (48 + digit_value c) = c" by blast
qed

lemma digit_value_less: "c \<in> set ''0123456789'' \<Longrightarrow> digit_value c < 10"
  by (auto simp: digit_value_def)

lemma digit_value_pos: "c \<in> set ''123456789'' \<Longrightarrow> 0 < digit_value c"
  by (auto simp: digit_value_def)

lemma decimal_Number_of_digits_aux:
  "c \<in> set ''123456789'' \<Longrightarrow> list_all is_digit cs \<Longrightarrow>
   decimal (Number_of_digits (c # cs)) = c # cs \<and> 0 < Number_of_digits (c # cs)"
proof (induction cs rule: rev_induct)
  case Nil
  then have c: "c \<in> set ''0123456789''" by auto
  have "Number_of_digits [c] = digit_value c" by (simp add: Number_of_digits_def)
  with Nil c show ?case
    using digit_char_value [OF c] digit_value_less [OF c] digit_value_pos [of c]
    by (simp add: decimal.simps [of "digit_value c"])
next
  case (snoc d cs)
  then have IH: "decimal (Number_of_digits (c # cs)) = c # cs" "0 < Number_of_digits (c # cs)"
    and d: "d \<in> set ''0123456789''" by (simp_all add: is_digit_def)
  let ?m = "Number_of_digits (c # cs)"
  have n: "Number_of_digits (c # cs @ [d]) = 10 * ?m + digit_value d"
    using Number_of_digits_snoc [of "c # cs" d] by simp
  have "decimal (10 * ?m + digit_value d)
          = decimal ((10 * ?m + digit_value d) div 10) @ [char_of (48 + (10 * ?m + digit_value d) mod 10)]"
    using IH(2) by (subst decimal.simps) simp
  also have "\<dots> = decimal ?m @ [char_of (48 + digit_value d)]"
    using digit_value_less [OF d] by simp
  also have "\<dots> = (c # cs) @ [d]"
    using IH(1) digit_char_value [OF d] by simp
  finally show ?case using n IH(2) by simp
qed

lemma decimal_Number_of_digits: "isIndex s \<Longrightarrow> decimal (Number_of_digits s) = s"
proof -
  assume "isIndex s"
  then consider "s = ''0''" | c cs where "s = c # cs" "c \<in> set ''123456789''" "list_all is_digit cs"
    by (auto simp: isIndex_def split: list.splits)
  then show ?thesis
  proof cases
    case 1
    have "decimal (Number_of_digits ''0'') = ''0''" by code_simp
    with 1 show ?thesis by simp
  next
    case 2
    then show ?thesis using decimal_Number_of_digits_aux by simp
  qed
qed

lemma Number_of_digits_inj:
  "isIndex a \<Longrightarrow> isIndex b \<Longrightarrow> Number_of_digits a = Number_of_digits b \<Longrightarrow> a = b"
  by (metis decimal_Number_of_digits)

subsection \<open>Defining a property keeps the property order\<close>

lemma js_ordered_Nil: "js_ordered []"
  by (simp add: js_ordered_def)

lemma js_ordered_Cons:
  "js_ordered (x # ps) \<longleftrightarrow> (\<forall>y\<in>set ps. key_before x y) \<and> js_ordered ps"
  by (simp add: js_ordered_def)

lemma js_ordered_append:
  "js_ordered (xs @ ys) \<longleftrightarrow>
     js_ordered xs \<and> js_ordered ys \<and> (\<forall>x\<in>set xs. \<forall>y\<in>set ys. key_before x y)"
  by (simp add: js_ordered_def sorted_wrt_append)

lemma js_ordered_filter: "js_ordered ps \<Longrightarrow> js_ordered (filter P ps)"
  by (simp add: js_ordered_def sorted_wrt_filter)

lemma not_below_after:
  "key_before x y \<Longrightarrow> \<not> index_below k x \<Longrightarrow> \<not> index_below k y"
  by (auto simp: key_before_def index_below_def split: if_splits)

lemma insert_index_Cons:
  "insert_index (x # ps) k v
     = (if index_below k x then x # insert_index ps k v else (k, v) # x # ps)"
  by (cases x) (simp add: index_below_def)

lemma insert_index_ordered:
  "js_ordered acc \<Longrightarrow>
   insert_index acc k v
     = filter (index_below k) acc @ (k, v) # filter (\<lambda>x. \<not> index_below k x) acc"
proof (induction acc)
  case Nil
  show ?case by simp
next
  case (Cons x acc)
  from Cons.prems have after: "\<forall>y\<in>set acc. key_before x y" and ord: "js_ordered acc"
    by (simp_all add: js_ordered_Cons)
  show ?case
  proof (cases "index_below k x")
    case True
    with Cons.IH [OF ord] show ?thesis by (simp add: insert_index_Cons)
  next
    case False
    with after have "\<forall>y\<in>set acc. \<not> index_below k y" by (auto dest: not_below_after)
    then have "filter (index_below k) acc = []" "filter (\<lambda>x. \<not> index_below k x) acc = acc"
      by (simp_all add: filter_empty_conv filter_id_conv)
    with False show ?thesis by (simp add: insert_index_Cons)
  qed
qed

lemma set_insert_index: "set (insert_index acc k v) = insert (k, v) (set acc)"
  by (induction acc) (simp_all add: insert_index_Cons insert_commute)

lemma keys_insert_index: "fst ` set (insert_index acc k v) = insert k (fst ` set acc)"
  by (simp add: set_insert_index)

lemma keys_obj_set: "fst ` set (obj_set acc k v) = insert k (fst ` set acc)"
proof (cases "hasOwn acc k")
  case True
  have "fst ` set (map (\<lambda>(k', v'). if k' = k then (k', v) else (k', v')) acc) = fst ` set acc"
    by (induction acc) auto
  with True show ?thesis by (auto simp: obj_set_def hasOwn_def)
next
  case False
  then show ?thesis by (simp add: obj_set_def keys_insert_index)
qed

lemma set_obj_set_new: "\<not> hasOwn acc k \<Longrightarrow> set (obj_set acc k v) = insert (k, v) (set acc)"
  by (simp add: obj_set_def set_insert_index)

lemma distinct_insert_index:
  "k \<notin> fst ` set acc \<Longrightarrow> distinct (map fst acc) \<Longrightarrow> distinct (map fst (insert_index acc k v))"
proof (induction acc)
  case Nil
  show ?case by simp
next
  case (Cons x acc)
  then show ?case using keys_insert_index [of acc k v] by (cases x) auto
qed

lemma distinct_obj_set_new:
  "\<not> hasOwn acc k \<Longrightarrow> distinct (map fst acc) \<Longrightarrow> distinct (map fst (obj_set acc k v))"
  by (auto simp: obj_set_def hasOwn_def distinct_insert_index)

lemma js_ordered_obj_set_new:
  assumes ord: "js_ordered acc" and new: "\<not> hasOwn acc k"
  shows "js_ordered (obj_set acc k v)"
proof (cases "is_array_index k")
  case False
  then have "\<forall>x\<in>set acc. key_before x (k, v)" by (simp add: key_before_def)
  with ord new False show ?thesis
    by (simp add: obj_set_def js_ordered_append js_ordered_Cons js_ordered_Nil)
next
  case True
  let ?A = "filter (index_below k) acc" and ?B = "filter (\<lambda>x. \<not> index_below k x) acc"
  have before: "key_before x (k, v)" if "x \<in> set ?A" for x
    using that True by (simp add: key_before_def index_below_def)
  have after: "key_before (k, v) y" if "y \<in> set ?B" for y
  proof (cases "is_array_index (fst y)")
    case False
    then show ?thesis by (simp add: key_before_def)
  next
    case idx: True
    from that new have "fst y \<noteq> k" by (auto simp: hasOwn_def)
    with True idx have "Number_of_digits (fst y) \<noteq> Number_of_digits k"
      using Number_of_digits_inj [of "fst y" k] by (auto simp: is_array_index_def)
    moreover from that idx have "\<not> Number_of_digits (fst y) < Number_of_digits k"
      by (simp add: index_below_def)
    ultimately show ?thesis using True idx by (simp add: key_before_def)
  qed
  have across: "key_before x y" if "x \<in> set ?A" "y \<in> set ?B" for x y
  proof -
    from before [OF that(1)] after [OF that(2)] show ?thesis
      using True by (auto simp: key_before_def split: if_splits)
  qed
  have "js_ordered (?A @ (k, v) # ?B)"
    using ord before after across
    by (auto simp: js_ordered_append js_ordered_Cons js_ordered_filter)
  with ord new True show ?thesis
    by (simp add: obj_set_def insert_index_ordered)
qed

subsection \<open>Removing a key commutes with defining another\<close>





lemma rebuild_ordered:
  "js_ordered (acc @ qs) \<Longrightarrow> distinct (map fst (acc @ qs)) \<Longrightarrow>
   foldl (\<lambda>next (k, v). obj_set next k v) acc qs = acc @ qs"
proof (induction qs arbitrary: acc)
  case Nil
  show ?case by simp
next
  case (Cons q qs)
  obtain k v where q: "q = (k, v)" by (cases q)
  from Cons.prems(2) q have new: "\<not> hasOwn acc k" by (auto simp: hasOwn_def)
  from Cons.prems(1) q have ord: "js_ordered acc" and before: "\<forall>x\<in>set acc. key_before x (k, v)"
    by (simp_all add: js_ordered_append)
  have step: "obj_set acc k v = acc @ [(k, v)]"
  proof (cases "is_array_index k")
    case False
    with new show ?thesis by (simp add: obj_set_def)
  next
    case True
    with before have "\<forall>x\<in>set acc. index_below k x"
      by (simp add: key_before_def index_below_def)
    then have "filter (index_below k) acc = acc" "filter (\<lambda>x. \<not> index_below k x) acc = []"
      by (simp_all add: filter_id_conv filter_empty_conv)
    with new True show ?thesis by (simp add: obj_set_def insert_index_ordered [OF ord])
  qed
  from Cons.prems q have "js_ordered ((acc @ [(k, v)]) @ qs)" "distinct (map fst ((acc @ [(k, v)]) @ qs))"
    by simp_all
  from Cons.IH [OF this] q step show ?case by simp
qed


subsection \<open>The renaming loop\<close>

lemma obj_assign_plain: "k \<noteq> ''__proto__'' \<Longrightarrow> obj_assign ps k v = obj_set ps k v"
  by (simp add: obj_assign_def)


lemma key_in: "(k, v) \<in> set ps \<Longrightarrow> k \<in> fst ` set ps"
  by force







subsection \<open>patchObject: the renamed mapping is stored at the parent path\<close>












section \<open>Properties of the nested JSON decoder\<close>

subsection \<open>Sequencing optional results\<close>

lemma those_map_Some:
  "those (map f xs) = Some ys \<longleftrightarrow> list_all2 (\<lambda>x y. f x = Some y) xs ys"
proof (induction xs arbitrary: ys)
  case Nil
  show ?case by auto
next
  case (Cons x xs)
  show ?case
  proof (cases "f x")
    case None
    then show ?thesis by (auto simp: list_all2_Cons1)
  next
    case (Some y)
    then show ?thesis using Cons.IH by (auto simp: list_all2_Cons1)
  qed
qed

subsection \<open>Assigning properties one after another\<close>

lemma keys_update_in_place:
  "map fst (map (\<lambda>(k', v'). if k' = k then (k', v) else (k', v')) ps) = map fst ps"
  by (induction ps) auto

lemma js_ordered_by_keys:
  "js_ordered zs \<longleftrightarrow>
     sorted_wrt (\<lambda>a b. if is_array_index b
                       then is_array_index a \<and> Number_of_digits a < Number_of_digits b
                       else True) (map fst zs)"
  by (simp add: js_ordered_def sorted_wrt_map key_before_def [abs_def])

lemma js_ordered_keys: "map fst ps = map fst qs \<Longrightarrow> js_ordered ps \<Longrightarrow> js_ordered qs"
  by (simp add: js_ordered_by_keys)

lemma values_update_in_place:
  "Q v \<Longrightarrow> \<forall>x\<in>set ps. Q (snd x) \<Longrightarrow>
   \<forall>x\<in>set (map (\<lambda>(k', v'). if k' = k then (k', v) else (k', v')) ps). Q (snd x)"
  by (induction ps) auto

lemma obj_assign_cases:
  obtains (drop) "k = ''__proto__''" "\<not> hasOwn acc k" "obj_assign acc k v = acc"
  | (update) "hasOwn acc k"
      "obj_assign acc k v = map (\<lambda>(k', v'). if k' = k then (k', v) else (k', v')) acc"
  | (new) "k \<noteq> ''__proto__''" "\<not> hasOwn acc k" "obj_assign acc k v = obj_set acc k v"
proof (cases "hasOwn acc k")
  case True
  then show ?thesis using update by (simp add: obj_assign_def obj_set_def)
next
  case False
  then show ?thesis using drop new by (cases "k = ''__proto__''") (simp_all add: obj_assign_def)
qed

lemma obj_assign_wf:
  assumes ord: "js_ordered acc" and dist: "distinct (map fst acc)"
    and proto: "\<not> hasOwn acc ''__proto__''"
    and Qv: "Q v" and Qacc: "\<forall>x\<in>set acc. Q (snd x)"
  shows "js_ordered (obj_assign acc k v)" and "distinct (map fst (obj_assign acc k v))"
    and "\<not> hasOwn (obj_assign acc k v) ''__proto__''"
    and "\<forall>x\<in>set (obj_assign acc k v). Q (snd x)"
proof -
  have "js_ordered (obj_assign acc k v) \<and> distinct (map fst (obj_assign acc k v)) \<and>
        \<not> hasOwn (obj_assign acc k v) ''__proto__'' \<and> (\<forall>x\<in>set (obj_assign acc k v). Q (snd x))"
  proof (cases rule: obj_assign_cases [of k acc v])
    case drop
    show ?thesis unfolding drop(3) using ord dist proto Qacc by blast
  next
    case update
    have keys: "map fst (obj_assign acc k v) = map fst acc"
      unfolding update(2) by (rule keys_update_in_place)
    have 1: "js_ordered (obj_assign acc k v)"
      using keys [symmetric] ord by (rule js_ordered_keys)
    have 2: "distinct (map fst (obj_assign acc k v))"
      unfolding keys by (rule dist)
    have 3: "\<not> hasOwn (obj_assign acc k v) ''__proto__''"
      using proto unfolding hasOwn_def keys .
    have 4: "\<forall>x\<in>set (obj_assign acc k v). Q (snd x)"
      unfolding update(2) using Qv Qacc by (rule values_update_in_place)
    from 1 2 3 4 show ?thesis by blast
  next
    case new
    have 1: "js_ordered (obj_set acc k v)"
      using ord new(2) by (rule js_ordered_obj_set_new)
    have 2: "distinct (map fst (obj_set acc k v))"
      using new(2) dist by (rule distinct_obj_set_new)
    have "fst ` set (obj_set acc k v) = insert k (fst ` set acc)" by (rule keys_obj_set)
    with new(1) proto have 3: "\<not> hasOwn (obj_set acc k v) ''__proto__''"
      by (simp add: hasOwn_def)
    have "set (obj_set acc k v) = insert (k, v) (set acc)"
      using new(2) by (rule set_obj_set_new)
    with Qv Qacc have 4: "\<forall>x\<in>set (obj_set acc k v). Q (snd x)" by simp
    from 1 2 3 4 show ?thesis unfolding new(3) by blast
  qed
  then show "js_ordered (obj_assign acc k v)" and "distinct (map fst (obj_assign acc k v))"
    and "\<not> hasOwn (obj_assign acc k v) ''__proto__''"
    and "\<forall>x\<in>set (obj_assign acc k v). Q (snd x)"
    by blast+
qed

lemma assign_all_wf:
  "js_ordered acc \<Longrightarrow> distinct (map fst acc) \<Longrightarrow> \<not> hasOwn acc ''__proto__'' \<Longrightarrow>
   \<forall>x\<in>set acc. Q (snd x) \<Longrightarrow> \<forall>x\<in>set qs. Q (snd x) \<Longrightarrow>
   js_ordered (foldl (\<lambda>result (key, v). obj_assign result key v) acc qs) \<and>
   distinct (map fst (foldl (\<lambda>result (key, v). obj_assign result key v) acc qs)) \<and>
   \<not> hasOwn (foldl (\<lambda>result (key, v). obj_assign result key v) acc qs) ''__proto__'' \<and>
   (\<forall>x\<in>set (foldl (\<lambda>result (key, v). obj_assign result key v) acc qs). Q (snd x))"
proof (induction qs arbitrary: acc)
  case Nil
  then show ?case by simp
next
  case (Cons q qs)
  obtain k v where q: "q = (k, v)" by (cases q)
  from Cons.prems(5) q have Qv: "Q v" and Qqs: "\<forall>x\<in>set qs. Q (snd x)" by simp_all
  note wf = obj_assign_wf [OF Cons.prems(1-3) Qv Cons.prems(4), of k]
  from Cons.IH [OF wf Qqs] q show ?case by simp
qed

lemma assign_all_ordered:
  "js_ordered (acc @ qs) \<Longrightarrow> distinct (map fst (acc @ qs)) \<Longrightarrow> \<not> hasOwn (acc @ qs) ''__proto__'' \<Longrightarrow>
   foldl (\<lambda>result (key, v). obj_assign result key v) acc qs = acc @ qs"
proof -
  assume o: "js_ordered (acc @ qs)" and d: "distinct (map fst (acc @ qs))"
    and p: "\<not> hasOwn (acc @ qs) ''__proto__''"
  from p have "\<forall>x\<in>set qs. fst x \<noteq> ''__proto__''" by (auto simp: hasOwn_def dest: key_in)
  then have "foldl (\<lambda>result (key, v). obj_assign result key v) acc qs
               = foldl (\<lambda>next (k, v). obj_set next k v) acc qs"
  proof (induction qs arbitrary: acc)
    case Nil
    show ?case by simp
  next
    case (Cons q qs)
    then show ?case by (cases q) (simp add: obj_assign_plain)
  qed
  with o d show ?thesis by (simp add: rebuild_ordered)
qed

lemma assign_all_idem:
  "foldl (\<lambda>result (key, v). obj_assign result key v) []
     (foldl (\<lambda>result (key, v). obj_assign result key v) [] qs)
   = foldl (\<lambda>result (key, v). obj_assign result key v) [] qs"
proof -
  from assign_all_wf [of "[]" "\<lambda>v. True" qs]
  have "js_ordered (foldl (\<lambda>result (key, v). obj_assign result key v) [] qs)"
    and "distinct (map fst (foldl (\<lambda>result (key, v). obj_assign result key v) [] qs))"
    and "\<not> hasOwn (foldl (\<lambda>result (key, v). obj_assign result key v) [] qs) ''__proto__''"
    by (simp_all add: js_ordered_Nil hasOwn_def)
  then show ?thesis
    using assign_all_ordered [of "[]" "foldl (\<lambda>result (key, v). obj_assign result key v) [] qs"]
    by simp
qed

subsection \<open>decodeValue\<close>

lemma decodeValue_Array:
  "decodeValue p (Suc n) (VArray items) = Some r \<longleftrightarrow>
     (\<exists>rs. r = VArray rs \<and> list_all2 (\<lambda>x y. decodeValue p n x = Some y) items rs)"
  by (auto simp: those_map_Some)

lemma decodeValue_Object:
  "decodeValue p (Suc n) (VObject entries) = Some r \<longleftrightarrow>
     (\<exists>decoded. r = VObject (foldl (\<lambda>result (key, v). obj_assign result key v) [] decoded) \<and>
        list_all2 (\<lambda>x y. map_option (Pair (fst x)) (decodeValue p n (snd x)) = Some y) entries decoded)"
  by (auto simp: those_map_Some case_prod_unfold)

lemma decodeValue_more_fuel:
  "decodeValue p n v = Some r \<Longrightarrow> decodeValue p (Suc n) v = Some r"
proof (induction n arbitrary: v r)
  case 0
  then show ?case by simp
next
  case (Suc n)
  show ?case
  proof (cases v)
    case (VString s)
    show ?thesis
    proof (cases "tryParseJson p s")
      case None
      with Suc.prems VString have "r = VString s" by simp
      with None VString show ?thesis by simp
    next
      case (Some parsed)
      with Suc.prems VString have "decodeValue p n parsed = Some r" by simp
      then have "decodeValue p (Suc n) parsed = Some r" by (rule Suc.IH)
      with Some VString show ?thesis by simp
    qed
  next
    case (VArray items)
    from Suc.prems [unfolded VArray decodeValue_Array]
    obtain rs where r: "r = VArray rs"
      and all: "list_all2 (\<lambda>x y. decodeValue p n x = Some y) items rs"
      by blast
    from all have "list_all2 (\<lambda>x y. decodeValue p (Suc n) x = Some y) items rs"
      by (rule list_all2_mono) (rule Suc.IH)
    with r VArray show ?thesis by (simp only: decodeValue_Array) blast
  next
    case (VObject entries)
    from Suc.prems [unfolded VObject decodeValue_Object]
    obtain decoded
      where r: "r = VObject (foldl (\<lambda>result (key, v). obj_assign result key v) [] decoded)"
      and all: "list_all2 (\<lambda>x y. map_option (Pair (fst x)) (decodeValue p n (snd x)) = Some y)
                  entries decoded"
      by blast
    from all have "list_all2 (\<lambda>x y. map_option (Pair (fst x)) (decodeValue p (Suc n) (snd x)) = Some y)
                     entries decoded"
      by (rule list_all2_mono) (auto dest: Suc.IH)
    with r VObject show ?thesis by (simp only: decodeValue_Object) blast
  next
    case VNull
    with Suc.prems have "r = VNull" by simp
    with VNull show ?thesis by simp
  next
    case (VBool b)
    with Suc.prems have "r = VBool b" by simp
    with VBool show ?thesis by simp
  next
    case (VNumber x)
    with Suc.prems have "r = VNumber x" by simp
    with VNumber show ?thesis by simp
  qed
qed

lemma decodeValue_idem:
  "decodeValue p n v = Some r \<Longrightarrow> decodeValue p n r = Some r"
proof (induction n arbitrary: v r)
  case 0
  then show ?case by simp
next
  case (Suc n)
  show ?case
  proof (cases v)
    case (VString s)
    show ?thesis
    proof (cases "tryParseJson p s")
      case None
      with Suc.prems VString have "r = VString s" by simp
      with None show ?thesis by simp
    next
      case (Some parsed)
      with Suc.prems VString have "decodeValue p n parsed = Some r" by simp
      then have "decodeValue p n r = Some r" by (rule Suc.IH)
      then show ?thesis by (rule decodeValue_more_fuel)
    qed
  next
    case (VArray items)
    from Suc.prems [unfolded VArray decodeValue_Array]
    obtain rs where r: "r = VArray rs"
      and all: "list_all2 (\<lambda>x y. decodeValue p n x = Some y) items rs"
      by blast
    have "decodeValue p n y = Some y" if "y \<in> set rs" for y
    proof -
      from that obtain i where i: "i < length rs" and y: "rs ! i = y"
        by (auto simp: in_set_conv_nth)
      from list_all2_nthD2 [OF all i] y have "decodeValue p n (items ! i) = Some y" by simp
      then show ?thesis by (rule Suc.IH)
    qed
    then have "list_all2 (\<lambda>x y. decodeValue p n x = Some y) rs rs"
      by (simp add: list_all2_conv_all_nth)
    with r show ?thesis by (simp only: decodeValue_Array) blast
  next
    case (VObject entries)
    from Suc.prems [unfolded VObject decodeValue_Object]
    obtain decoded
      where r: "r = VObject (foldl (\<lambda>result (key, v). obj_assign result key v) [] decoded)"
      and all: "list_all2 (\<lambda>x y. map_option (Pair (fst x)) (decodeValue p n (snd x)) = Some y)
                  entries decoded"
      by blast
    let ?built = "foldl (\<lambda>result (key, v). obj_assign result key v) [] decoded"
    have fixed: "\<forall>y\<in>set decoded. decodeValue p n (snd y) = Some (snd y)"
    proof
      fix y assume "y \<in> set decoded"
      then obtain i where i: "i < length decoded" and y: "decoded ! i = y"
        by (auto simp: in_set_conv_nth)
      from list_all2_nthD2 [OF all i] y
      have "map_option (Pair (fst (entries ! i))) (decodeValue p n (snd (entries ! i))) = Some y"
        by simp
      then have "decodeValue p n (snd (entries ! i)) = Some (snd y)" by auto
      then show "decodeValue p n (snd y) = Some (snd y)" by (rule Suc.IH)
    qed
    from assign_all_wf [of "[]" "\<lambda>v. decodeValue p n v = Some v" decoded] fixed
    have built: "\<forall>y\<in>set ?built. decodeValue p n (snd y) = Some (snd y)"
      by (simp add: js_ordered_Nil hasOwn_def)
    then have ll: "list_all2 (\<lambda>x y. map_option (Pair (fst x)) (decodeValue p n (snd x)) = Some y)
                 ?built ?built"
      by (simp add: list_all2_conv_all_nth)
    have again: "foldl (\<lambda>result (key, v). obj_assign result key v) [] ?built = ?built"
      by (rule assign_all_idem)
    have "\<exists>decoded'. VObject ?built
              = VObject (foldl (\<lambda>result (key, v). obj_assign result key v) [] decoded') \<and>
            list_all2 (\<lambda>x y. map_option (Pair (fst x)) (decodeValue p n (snd x)) = Some y)
              ?built decoded'"
    proof (intro exI conjI)
      show "VObject ?built = VObject (foldl (\<lambda>result (key, v). obj_assign result key v) [] ?built)"
        by (simp only: again)
      show "list_all2 (\<lambda>x y. map_option (Pair (fst x)) (decodeValue p n (snd x)) = Some y)
              ?built ?built"
        by (rule ll)
    qed
    then show ?thesis
      unfolding r by (simp only: decodeValue_Object)
  next
    case VNull
    with Suc.prems have "r = VNull" by simp
    with VNull show ?thesis by simp
  next
    case (VBool b)
    with Suc.prems have "r = VBool b" by simp
    with VBool show ?thesis by simp
  next
    case (VNumber x)
    with Suc.prems have "r = VNumber x" by simp
    with VNumber show ?thesis by simp
  qed
qed

text \<open>
  Claim C9. The decoder is idempotent: where \<open>decodeNestedJson\<close> succeeds on an input
  with result \<open>V\<close>, running \<open>decodeValue\<close> on \<open>V\<close> again returns, within the same bound,
  and returns \<open>V\<close>.
\<close>

theorem decodeNestedJson_idempotent:
  "decodeNestedJson JSON_parse fuel input = Some (Inr V) \<Longrightarrow> decodeValue JSON_parse fuel V = Some V"
proof -
  assume "decodeNestedJson JSON_parse fuel input = Some (Inr V)"
  then obtain root where "decodeValue JSON_parse fuel root = Some V"
    by (auto simp: decodeNestedJson_def split: option.splits)
  then show ?thesis by (rule decodeValue_idem)
qed

theorem decodeNestedJson_idempotent_witness:
  "decodeNestedJson
     (\<lambda>s. if s = ''['' @ [dquote] @ ''[1]'' @ [dquote] @ '']'' then Some (VArray [VString ''[1]''])
          else if s = ''[1]'' then Some (VArray [VNumber (1::int)]) else None)
     5 (''['' @ [dquote] @ ''[1]'' @ [dquote] @ '']'')
     = Some (Inr (VArray [VArray [VNumber 1]])) \<and>
   decodeValue
     (\<lambda>s. if s = ''['' @ [dquote] @ ''[1]'' @ [dquote] @ '']'' then Some (VArray [VString ''[1]''])
          else if s = ''[1]'' then Some (VArray [VNumber (1::int)]) else None)
     5 (VArray [VArray [VNumber 1]])
     = Some (VArray [VArray [VNumber 1]])"
proof -
  let ?p = "\<lambda>s. if s = ''['' @ [dquote] @ ''[1]'' @ [dquote] @ '']'' then Some (VArray [VString ''[1]''])
          else if s = ''[1]'' then Some (VArray [VNumber (1::int)]) else None"
  have run: "decodeNestedJson ?p 5 (''['' @ [dquote] @ ''[1]'' @ [dquote] @ '']'')
               = Some (Inr (VArray [VArray [VNumber 1]]))"
    by code_simp
  from decodeNestedJson_idempotent [OF run] run show ?thesis by blast
qed

section \<open>Properties of \<open>commitCellEditor\<close>\<close>









end
